theory Spec2Isabelle
  imports Main "HOL-Library.Word"
begin

section \<open>The AEI bridge script\<close>

text \<open>
  The script \<^verbatim>\<open>ArimaaAnalyzer.Maui/Aiexecutables/mypy.py\<close> starts an Arimaa engine as
  a child process, reads the engine's output on a background thread into a queue, and
  drives the AEI protocol from the main thread: handshake, readiness check, position
  setup, search for one move, shutdown.

  The model follows the script part by part:
  \<^item> \<open>enqueue_output\<close> (lines 6 to 9), the body of the reader thread;
  \<^item> \<open>send\<close> (lines 27 to 29), the command sender;
  \<^item> the top-level code (lines 32 to 79), as the steps of the main thread;
  \<^item> the engine, a black box that may write any bytes to its output while it runs,
    and may exit at any time.
  Threads and engine interleave; a schedule lists who moves next.

  What the script uses of Python's library is written out as the library behaves: the
  strict UTF-8 codec, \<^verbatim>\<open>str.strip\<close>, \<^verbatim>\<open>str.rstrip\<close>, \<^verbatim>\<open>str.startswith\<close>,
  \<^verbatim>\<open>readline\<close> on a binary stream, the buffered writer on the engine's input pipe
  (POSIX pipe errors) and \<^verbatim>\<open>queue.Queue\<close>. Printing is taken to succeed.
\<close>

section \<open>Bytes and Python strings\<close>

text \<open>
  A Python \<^verbatim>\<open>bytes\<close> object is a sequence of integers in \<open>0..255\<close>; a Python
  \<^verbatim>\<open>str\<close> is a sequence of Unicode code points. String literals of the script
  are ASCII, so \<open>str ''aeiok''\<close> is the code point list of the literal.
\<close>

type_synonym byte = "8 word"
type_synonym bytes = "byte list"
type_synonym pystr = "nat list"

definition str :: "string \<Rightarrow> pystr" where
  "str s = map of_char s"

datatype error = UnicodeDecodeError | UnicodeEncodeError | ValueError | BrokenPipeError

subsection \<open>The UTF-8 codec, strict error handling\<close>

definition is_cont :: "nat \<Rightarrow> bool" where
  "is_cont b \<longleftrightarrow> 0x80 \<le> b \<and> b \<le> 0xBF"

text \<open>
  \<^verbatim>\<open>bytes.decode("utf-8")\<close> on the byte values: shortest-form sequences only,
  no surrogates, nothing above U+10FFFF; any other byte sequence raises.
\<close>

fun decode_cps :: "nat list \<Rightarrow> pystr option" where
  "decode_cps [] = Some []"
| "decode_cps (b0 # bs) =
    (if b0 < 0x80 then map_option ((#) b0) (decode_cps bs)
     else if 0xC2 \<le> b0 \<and> b0 \<le> 0xDF then
       (case bs of
          b1 # r \<Rightarrow>
            if is_cont b1
            then map_option ((#) ((b0 - 0xC0) * 0x40 + (b1 - 0x80))) (decode_cps r)
            else None
        | _ \<Rightarrow> None)
     else if 0xE0 \<le> b0 \<and> b0 \<le> 0xEF then
       (case bs of
          b1 # b2 # r \<Rightarrow>
            if (if b0 = 0xE0 then 0xA0 else 0x80) \<le> b1
               \<and> b1 \<le> (if b0 = 0xED then 0x9F else 0xBF) \<and> is_cont b2
            then map_option
                   ((#) ((b0 - 0xE0) * 0x1000 + (b1 - 0x80) * 0x40 + (b2 - 0x80)))
                   (decode_cps r)
            else None
        | _ \<Rightarrow> None)
     else if 0xF0 \<le> b0 \<and> b0 \<le> 0xF4 then
       (case bs of
          b1 # b2 # b3 # r \<Rightarrow>
            if (if b0 = 0xF0 then 0x90 else 0x80) \<le> b1
               \<and> b1 \<le> (if b0 = 0xF4 then 0x8F else 0xBF) \<and> is_cont b2 \<and> is_cont b3
            then map_option
                   ((#) ((b0 - 0xF0) * 0x40000 + (b1 - 0x80) * 0x1000
                         + (b2 - 0x80) * 0x40 + (b3 - 0x80)))
                   (decode_cps r)
            else None
        | _ \<Rightarrow> None)
     else None)"

definition utf8_decode :: "bytes \<Rightarrow> error + pystr" where
  "utf8_decode bs =
     (case decode_cps (map unat bs) of
        None \<Rightarrow> Inl UnicodeDecodeError
      | Some t \<Rightarrow> Inr t)"

text \<open>
  \<^verbatim>\<open>str.encode("utf-8")\<close>: a lone surrogate cannot be encoded and raises.
\<close>

definition encode_cp :: "nat \<Rightarrow> nat list option" where
  "encode_cp c =
     (if c < 0x80 then Some [c]
      else if c < 0x800 then Some [0xC0 + c div 0x40, 0x80 + c mod 0x40]
      else if c < 0x10000 then
        (if 0xD800 \<le> c \<and> c \<le> 0xDFFF then None
         else Some [0xE0 + c div 0x1000, 0x80 + c div 0x40 mod 0x40, 0x80 + c mod 0x40])
      else if c < 0x110000 then
        Some [0xF0 + c div 0x40000, 0x80 + c div 0x1000 mod 0x40,
              0x80 + c div 0x40 mod 0x40, 0x80 + c mod 0x40]
      else None)"

fun encode_cps :: "pystr \<Rightarrow> nat list option" where
  "encode_cps [] = Some []"
| "encode_cps (c # cs) =
     (case encode_cp c of
        None \<Rightarrow> None
      | Some bs \<Rightarrow> map_option ((@) bs) (encode_cps cs))"

definition utf8_encode :: "pystr \<Rightarrow> error + bytes" where
  "utf8_encode t =
     (case encode_cps t of
        None \<Rightarrow> Inl UnicodeEncodeError
      | Some ns \<Rightarrow> Inr (map of_nat ns))"

subsection \<open>The string methods the script calls\<close>

definition rstrip_nl :: "pystr \<Rightarrow> pystr" where
  \<comment> \<open>\<^verbatim>\<open>s.rstrip("\n")\<close>: every trailing U+000A is removed.\<close>
  "rstrip_nl t = rev (dropWhile (\<lambda>c. c = 0x0A) (rev t))"

definition is_space :: "nat \<Rightarrow> bool" where
  \<comment> \<open>the code points \<^verbatim>\<open>str.isspace\<close> accepts, which \<^verbatim>\<open>str.strip()\<close> removes\<close>
  "is_space c \<longleftrightarrow>
     (0x09 \<le> c \<and> c \<le> 0x0D) \<or> (0x1C \<le> c \<and> c \<le> 0x20) \<or> c = 0x85 \<or> c = 0xA0
     \<or> c = 0x1680 \<or> (0x2000 \<le> c \<and> c \<le> 0x200A) \<or> c = 0x2028 \<or> c = 0x2029
     \<or> c = 0x202F \<or> c = 0x205F \<or> c = 0x3000"

definition strip :: "pystr \<Rightarrow> pystr" where
  \<comment> \<open>\<^verbatim>\<open>s.strip()\<close>: leading and trailing whitespace is removed.\<close>
  "strip t = rev (dropWhile is_space (rev (dropWhile is_space t)))"

definition startswith :: "pystr \<Rightarrow> pystr \<Rightarrow> bool" where
  "startswith t p \<longleftrightarrow> take (length p) t = p"

section \<open>The output drain\<close>

text \<open>
  \<^verbatim>\<open>stream.readline()\<close> on the bytes still to come: the line up to and including
  the first \<open>0x0A\<close>, or everything that is left when the stream ends without one;
  \<open>b""\<close> at the end of the stream.
\<close>

fun readline :: "bytes \<Rightarrow> bytes \<times> bytes" where
  "readline [] = ([], [])"
| "readline (b # bs) =
     (if b = 0x0A then ([b], bs)
      else (case readline bs of (l, r) \<Rightarrow> (b # l, r)))"

definition put :: "pystr \<Rightarrow> pystr list \<Rightarrow> pystr list" where
  "put x q = q @ [x]"

datatype drain_status = Draining | Finished | Crashed error

datatype item = Eof | Raised error | Got pystr

text \<open>
  What one turn of the loop of \<^verbatim>\<open>enqueue_output\<close> takes from the stream: \<open>b""\<close>
  ends the loop; otherwise the line is decoded, which may raise, and its trailing
  newlines are stripped.
\<close>

definition next_line :: "bytes \<Rightarrow> item \<times> bytes" where
  "next_line stream =
     (case readline stream of
        (line, rest) \<Rightarrow>
          if line = [] then (Eof, rest)
          else (case utf8_decode line of
                  Inl e \<Rightarrow> (Raised e, rest)
                | Inr t \<Rightarrow> (Got (rstrip_nl t), rest)))"

lemma readline_append: "readline s = (l, r) \<Longrightarrow> l @ r = s"
  by (induction s arbitrary: l r) (auto split: if_splits prod.splits)

lemma readline_shorter: "readline s = (l, r) \<Longrightarrow> l \<noteq> [] \<Longrightarrow> length r < length s"
  by (drule readline_append) auto

lemma next_line_shorter: "next_line stream = (Got x, rest) \<Longrightarrow> length rest < length stream"
  by (auto simp: next_line_def split: prod.splits if_splits sum.splits
      dest: readline_shorter)

text \<open>
  \<^verbatim>\<open>enqueue_output(stream, q)\<close> run on a stream whose whole content is given: the
  status the thread ends with (the stream closed after the loop, or the exception that
  ended it) and the queue it leaves.
\<close>

function enqueue_output :: "bytes \<Rightarrow> pystr list \<Rightarrow> drain_status \<times> pystr list" where
  "enqueue_output stream qu =
     (case next_line stream of
        (Eof, _) \<Rightarrow> (Finished, qu)
      | (Raised e, _) \<Rightarrow> (Crashed e, qu)
      | (Got x, rest) \<Rightarrow> enqueue_output rest (put x qu))"
  by pat_completeness auto
termination
  by (relation "measure (\<lambda>(stream, qu). length stream)")
     (auto dest: next_line_shorter [OF sym])

declare enqueue_output.simps [simp del]

text \<open>The raw lines \<^verbatim>\<open>iter(stream.readline, b"")\<close> yields, in order.\<close>

function stream_lines :: "bytes \<Rightarrow> bytes list" where
  "stream_lines stream =
     (case readline stream of
        (line, rest) \<Rightarrow> if line = [] then [] else line # stream_lines rest)"
  by pat_completeness auto
termination
  by (relation "measure length") (auto dest: readline_shorter [OF sym])

declare stream_lines.simps [simp del]

section \<open>The engine process and the command sender\<close>

text \<open>
  The \<^verbatim>\<open>Popen\<close> object as far as the script uses it: whether the child still runs,
  the buffered writer on its standard input (closed flag, pending buffer, bytes
  delivered to the pipe) and the bytes the child has written to its merged output
  that the reader has not taken yet.
\<close>

record popen =
  running :: bool
  stdin_closed :: bool
  stdin_buf :: bytes
  stdin_pipe :: bytes
  stdout_pipe :: bytes

text \<open>
  A write on a closed file object raises \<^verbatim>\<open>ValueError\<close>; otherwise the bytes go to
  the buffer (a command is far shorter than the buffer). A flush hands the buffer to
  the pipe; when the reading end is gone because the child has exited, that raises
  \<^verbatim>\<open>BrokenPipeError\<close>.
\<close>

definition stdin_write :: "bytes \<Rightarrow> popen \<Rightarrow> error + popen" where
  "stdin_write bs e =
     (if stdin_closed e then Inl ValueError
      else Inr (e\<lparr>stdin_buf := stdin_buf e @ bs\<rparr>))"

definition stdin_flush :: "popen \<Rightarrow> error + popen" where
  "stdin_flush e =
     (if stdin_closed e then Inl ValueError
      else if stdin_buf e = [] then Inr e
      else if \<not> running e then Inl BrokenPipeError
      else Inr (e\<lparr>stdin_pipe := stdin_pipe e @ stdin_buf e, stdin_buf := []\<rparr>))"

definition send :: "pystr \<Rightarrow> popen \<Rightarrow> error + popen" where
  "send cmd e =
     (case utf8_encode (cmd @ [0x0A]) of
        Inl err \<Rightarrow> Inl err
      | Inr bs \<Rightarrow>
          (case stdin_write bs e of
             Inl err \<Rightarrow> Inl err
           | Inr e' \<Rightarrow> stdin_flush e'))"

text \<open>
  Several sends in a row: the first exception ends them, and what the earlier sends
  wrote stays written.
\<close>

fun send_all :: "pystr list \<Rightarrow> popen \<Rightarrow> error option \<times> popen" where
  "send_all [] e = (None, e)"
| "send_all (c # cs) e =
     (case send c e of
        Inl err \<Rightarrow> (Some err, e)
      | Inr e' \<Rightarrow> send_all cs e')"

section \<open>The session: engine, drain thread, queue and driver\<close>

datatype phase = START | INIT | READY_CHECK | SETUP | SEARCHING | DONE | EXITED | FAILED error

datatype console = ENGINE pystr | FINAL pystr

text \<open>
  \<open>q\<close> is the \<^verbatim>\<open>queue.Queue\<close>, oldest item first; \<open>console\<close> is what the script has
  printed; \<open>bestmove\<close> is the script's variable. \<open>produced\<close> is a history variable:
  every item the drain has put on the queue, in the order of the puts.
\<close>

record session =
  engine :: popen
  drain :: drain_status
  q :: "pystr list"
  produced :: "pystr list"
  phase :: phase
  console :: "console list"
  bestmove :: "pystr option"

text \<open>
  The session once the engine has been started, the queue created and the reader
  thread started (lines 13 to 25), before the first send.
\<close>

definition initial :: session where
  "initial =
     \<lparr>engine = \<lparr>running = True, stdin_closed = False, stdin_buf = [], stdin_pipe = [],
                stdout_pipe = []\<rparr>,
      drain = Draining, q = [], produced = [], phase = START, console = [],
      bestmove = None\<rparr>"

text \<open>
  \<^verbatim>\<open>q.get()\<close> takes the oldest item. On an empty queue the call without a timeout
  does not return (the caller is blocked), and the call with a timeout raises
  \<^verbatim>\<open>queue.Empty\<close> when the time is up: both are \<open>None\<close> here, read by the caller.
\<close>

definition get :: "pystr list \<Rightarrow> (pystr \<times> pystr list) option" where
  "get qu = (case qu of [] \<Rightarrow> None | x # rest \<Rightarrow> Some (x, rest))"

subsection \<open>The engine, a black box\<close>

text \<open>
  While it runs, the engine may append any bytes to its output; it may exit, after which
  it writes nothing more and the reader meets the end of the stream once the pipe is
  drained. What it does with its input is not modelled.
\<close>

definition engine_emit :: "bytes \<Rightarrow> session \<Rightarrow> session option" where
  "engine_emit bs s =
     (if running (engine s)
      then Some (s\<lparr>engine := (engine s)\<lparr>stdout_pipe := stdout_pipe (engine s) @ bs\<rparr>\<rparr>)
      else None)"

definition engine_exit :: "session \<Rightarrow> session option" where
  "engine_exit s =
     (if running (engine s)
      then Some (s\<lparr>engine := (engine s)\<lparr>running := False\<rparr>\<rparr>)
      else None)"

subsection \<open>The drain thread\<close>

text \<open>
  One turn of the loop of \<^verbatim>\<open>enqueue_output\<close> on the live pipe. \<^verbatim>\<open>readline\<close> waits
  while the child runs and no complete line is there; a thread that has ended takes no
  further turn.
\<close>

definition drain_step :: "session \<Rightarrow> session option" where
  "drain_step s =
     (if drain s \<noteq> Draining then None
      else if running (engine s) \<and> 0x0A \<notin> set (stdout_pipe (engine s)) then None
      else (case next_line (stdout_pipe (engine s)) of
              (Eof, rest) \<Rightarrow> Some (s\<lparr>drain := Finished\<rparr>)
            | (Raised e, rest) \<Rightarrow>
                Some (s\<lparr>engine := (engine s)\<lparr>stdout_pipe := rest\<rparr>, drain := Crashed e\<rparr>)
            | (Got x, rest) \<Rightarrow>
                Some (s\<lparr>engine := (engine s)\<lparr>stdout_pipe := rest\<rparr>,
                        q := put x (q s), produced := produced s @ [x]\<rparr>)))"

subsection \<open>The main thread\<close>

definition setposition :: pystr where
  "setposition =
     str ''setposition g [rrrrrrrrhcdmedch                                HCDMEDCHRRRRRRRR]''"

text \<open>
  The sends between two waits, taken as one step of the main thread (they touch only
  the input side of the pipe, which no other thread uses): an exception of
  \<^verbatim>\<open>send\<close> ends the script.
\<close>

definition enter :: "phase \<Rightarrow> pystr list \<Rightarrow> session \<Rightarrow> session" where
  "enter p cmds s =
     (case send_all cmds (engine s) of
        (None, e') \<Rightarrow> s\<lparr>engine := e', phase := p\<rparr>
      | (Some err, e') \<Rightarrow> s\<lparr>engine := e', phase := FAILED err\<rparr>)"

definition print_line :: "pystr \<Rightarrow> pystr list \<Rightarrow> session \<Rightarrow> session" where
  \<comment> \<open>the state after \<^verbatim>\<open>line = q.get()\<close> and \<^verbatim>\<open>print("ENGINE:", line)\<close>\<close>
  "print_line line rest s = s\<lparr>q := rest, console := console s @ [ENGINE line]\<rparr>"

definition print_final :: "pystr \<Rightarrow> session \<Rightarrow> session" where
  \<comment> \<open>the state after \<^verbatim>\<open>bestmove = line\<close> and the print of the final move\<close>
  "print_final line s = s\<lparr>bestmove := Some line, console := console s @ [FINAL line]\<rparr>"

text \<open>
  One step of the main thread: the sends before the first loop, one turn of a loop
  (with the sends that follow it when the loop is left), or the final wait for the
  child. \<open>None\<close>: the thread cannot move (blocked in \<^verbatim>\<open>q.get()\<close> or
  \<^verbatim>\<open>engine.wait()\<close>, or ended).
\<close>

definition driver_step :: "session \<Rightarrow> session option" where
  "driver_step s =
     (case phase s of
        START \<Rightarrow> Some (enter INIT [str ''aei''] s)
      | INIT \<Rightarrow>
          (case get (q s) of
             None \<Rightarrow> None
           | Some (line, rest) \<Rightarrow>
               Some (if strip line = str ''aeiok''
                     then enter READY_CHECK [str ''isready''] (print_line line rest s)
                     else print_line line rest s))
      | READY_CHECK \<Rightarrow>
          (case get (q s) of
             None \<Rightarrow> None
           | Some (line, rest) \<Rightarrow>
               Some (if strip line = str ''readyok''
                     then enter SETUP
                            [str ''newgame'', setposition,
                             str ''setoption name tcmove value 10'']
                            (print_line line rest s)
                     else print_line line rest s))
      | SETUP \<Rightarrow> Some (enter SEARCHING [str ''go''] s)
      | SEARCHING \<Rightarrow>
          (case get (q s) of
             None \<Rightarrow> Some s
           | Some (line, rest) \<Rightarrow>
               Some (if startswith line (str ''bestmove'')
                     then enter DONE [str ''quit'']
                            (print_final line (print_line line rest s))
                     else print_line line rest s))
      | DONE \<Rightarrow> if running (engine s) then None else Some (s\<lparr>phase := EXITED\<rparr>)
      | EXITED \<Rightarrow> None
      | FAILED err \<Rightarrow> None)"

subsection \<open>Schedules\<close>

datatype action = Emit bytes | Exit | Drain | Driver

fun step :: "action \<Rightarrow> session \<Rightarrow> session option" where
  "step (Emit bs) s = engine_emit bs s"
| "step Exit s = engine_exit s"
| "step Drain s = drain_step s"
| "step Driver s = driver_step s"

fun exec :: "action list \<Rightarrow> session \<Rightarrow> session option" where
  "exec [] s = Some s"
| "exec (a # as) s = (case step a s of None \<Rightarrow> None | Some s' \<Rightarrow> exec as s')"

fun engine_lines :: "console list \<Rightarrow> pystr list" where
  "engine_lines [] = []"
| "engine_lines (ENGINE x # c) = x # engine_lines c"
| "engine_lines (FINAL x # c) = engine_lines c"

text \<open>
  Two notions for stating what the drain does with a whole stream: the queue after
  putting the texts of a list of raw lines, stopping at the first line that does not
  decode; and the relation between a raw line and the item the drain puts for it.
\<close>

fun put_lines :: "bytes list \<Rightarrow> pystr list \<Rightarrow> drain_status \<times> pystr list" where
  "put_lines [] qu = (Finished, qu)"
| "put_lines (raw # raws) qu =
     (case utf8_decode raw of
        Inl e \<Rightarrow> (Crashed e, qu)
      | Inr t \<Rightarrow> put_lines raws (put (rstrip_nl t) qu))"

definition line_text :: "bytes \<Rightarrow> pystr \<Rightarrow> bool" where
  "line_text raw x \<longleftrightarrow>
     (case utf8_decode raw of Inl e \<Rightarrow> False | Inr t \<Rightarrow> x = rstrip_nl t)"

text \<open>
  Two notions for reasoning about schedules: the order in which the script passes
  through its phases, and the test on a popped line that ends the wait of a phase.
\<close>

fun rank :: "phase \<Rightarrow> nat" where
  "rank START = 0"
| "rank INIT = 1"
| "rank READY_CHECK = 2"
| "rank SETUP = 3"
| "rank SEARCHING = 4"
| "rank DONE = 5"
| "rank EXITED = 6"
| "rank (FAILED err) = 7"

fun sentinel :: "phase \<Rightarrow> pystr \<Rightarrow> bool" where
  "sentinel INIT x = (strip x = str ''aeiok'')"
| "sentinel READY_CHECK x = (strip x = str ''readyok'')"
| "sentinel SEARCHING x = startswith x (str ''bestmove'')"
| "sentinel p x = False"

definition ascii :: "string \<Rightarrow> bytes" where
  \<comment> \<open>the bytes of an ASCII literal, for writing down what an engine emits\<close>
  "ascii s = map of_char s"

section \<open>The command sender\<close>

lemma encode_cps_append:
  "encode_cps (t @ u) =
     (case encode_cps t of
        None \<Rightarrow> None
      | Some a \<Rightarrow> (case encode_cps u of None \<Rightarrow> None | Some b \<Rightarrow> Some (a @ b)))"
  by (induction t) (auto split: option.splits)

lemma utf8_encode_line:
  "utf8_encode cmd = Inr bs \<Longrightarrow> utf8_encode (cmd @ [0x0A]) = Inr (bs @ [0x0A])"
  by (auto simp: utf8_encode_def encode_cps_append encode_cp_def split: option.splits)


text \<open>
  C8. For every command text that has a UTF-8 encoding, \<open>send\<close> on an open input
  stream of a running engine delivers to the pipe exactly the UTF-8 bytes of the text
  followed by one line terminator \<open>0x0A\<close> (after whatever was still pending in the
  buffer), and leaves the buffer empty: the write is flushed at once.
\<close>

theorem send_writes_line_and_flushes:
  assumes "\<not> stdin_closed e" and "running e" and "utf8_encode cmd = Inr bs"
  shows "send cmd e =
           Inr (e\<lparr>stdin_pipe := stdin_pipe e @ stdin_buf e @ bs @ [0x0A], stdin_buf := []\<rparr>)"
  using assms
  by (simp add: send_def utf8_encode_line stdin_write_def stdin_flush_def)

theorem send_writes_line_and_flushes_witness:
  "\<not> stdin_closed (engine initial) \<and> running (engine initial)
   \<and> utf8_encode (str ''isready'') = Inr [0x69, 0x73, 0x72, 0x65, 0x61, 0x64, 0x79]
   \<and> send (str ''isready'') (engine initial) =
       Inr ((engine initial)\<lparr>stdin_pipe := [0x69, 0x73, 0x72, 0x65, 0x61, 0x64, 0x79, 0x0A],
                               stdin_buf := []\<rparr>)"
proof -
  have a: "\<not> stdin_closed (engine initial)" and b: "running (engine initial)"
    by (simp_all add: initial_def)
  have c: "utf8_encode (str ''isready'') = Inr [0x69, 0x73, 0x72, 0x65, 0x61, 0x64, 0x79]"
    by (simp add: utf8_encode_def str_def encode_cp_def)
  from send_writes_line_and_flushes [OF a b c] a b c show ?thesis
    by (simp add: initial_def)
qed




subsection \<open>The codec model: decoding inverts encoding\<close>

text \<open>
  A check of the two codec functions against each other: whatever \<open>utf8_encode\<close>
  produces, \<open>utf8_decode\<close> reads back as the same text.
\<close>

lemma decode_cps_2:
  "2 \<le> d \<Longrightarrow> d < 32 \<Longrightarrow> m < 64 \<Longrightarrow>
     decode_cps ((0xC0 + d) # (0x80 + m) # rest)
       = map_option ((#) (d * 0x40 + m)) (decode_cps rest)"
  by (simp add: is_cont_def)

lemma decode_cps_3:
  "d < 16 \<Longrightarrow> m1 < 64 \<Longrightarrow> m2 < 64 \<Longrightarrow> (d = 0 \<longrightarrow> 32 \<le> m1) \<Longrightarrow> (d = 13 \<longrightarrow> m1 < 32) \<Longrightarrow>
     decode_cps ((0xE0 + d) # (0x80 + m1) # (0x80 + m2) # rest)
       = map_option ((#) (d * 0x1000 + m1 * 0x40 + m2)) (decode_cps rest)"
  by (auto simp: is_cont_def)

lemma decode_cps_4:
  "d < 5 \<Longrightarrow> m1 < 64 \<Longrightarrow> m2 < 64 \<Longrightarrow> m3 < 64 \<Longrightarrow> (d = 0 \<longrightarrow> 16 \<le> m1) \<Longrightarrow>
     (d = 4 \<longrightarrow> m1 < 16) \<Longrightarrow>
     decode_cps ((0xF0 + d) # (0x80 + m1) # (0x80 + m2) # (0x80 + m3) # rest)
       = map_option ((#) (d * 0x40000 + m1 * 0x1000 + m2 * 0x40 + m3)) (decode_cps rest)"
  by (auto simp: is_cont_def)


lemma div_4096: "(c::nat) div 4096 = c div 64 div 64"
  by (simp add: div_mult2_eq [symmetric])

lemma div_262144: "(c::nat) div 262144 = c div 64 div 64 div 64"
  by (simp add: div_mult2_eq [symmetric])

lemma decode_encode_cp:
  assumes "encode_cp c = Some ns"
  shows "decode_cps (ns @ rest) = map_option ((#) c) (decode_cps rest)"
proof -
  consider "c < 0x80" | "0x80 \<le> c" "c < 0x800"
    | "0x800 \<le> c" "c < 0x10000" "\<not> (0xD800 \<le> c \<and> c \<le> 0xDFFF)"
    | "0x800 \<le> c" "c < 0x10000" "0xD800 \<le> c \<and> c \<le> 0xDFFF"
    | "0x10000 \<le> c" "c < 0x110000" | "0x110000 \<le> c" by linarith
  then show ?thesis
  proof cases
    case 1
    with assms show ?thesis by (auto simp: encode_cp_def)
  next
    case 2
    define d where "d = c div 64"
    define m where "m = c mod 64"
    have c: "d * 64 + m = c" by (simp add: d_def m_def)
    from 2 have b: "2 \<le> d" "d < 32" "m < 64"
      by (simp_all add: d_def m_def div_less_iff_less_mult less_eq_div_iff_mult_less_eq)
    from 2 assms have "ns = [0xC0 + d, 0x80 + m]"
      by (simp add: encode_cp_def d_def m_def)
    with decode_cps_2 [OF b, of rest] show ?thesis by (simp add: c)
  next
    case 3
    define e where "e = c div 64"
    define d where "d = e div 64"
    define m1 where "m1 = e mod 64"
    define m2 where "m2 = c mod 64"
    have "e * 64 + m2 = c" "d * 64 + m1 = e" by (simp_all add: e_def d_def m1_def m2_def)
    then have c: "d * 4096 + m1 * 64 + m2 = c" by simp
    from 3 have "c < 55296 \<or> 57344 \<le> c" by linarith
    then have "e < 864 \<or> 896 \<le> e"
      by (auto simp: e_def div_less_iff_less_mult less_eq_div_iff_mult_less_eq)
    moreover from 3 have "32 \<le> e" "e < 1024"
      by (simp_all add: e_def div_less_iff_less_mult less_eq_div_iff_mult_less_eq)
    ultimately have e: "32 \<le> e" "e < 1024" "e < 864 \<or> 896 \<le> e" by simp_all
    then have b: "d < 16" "m1 < 64" "m2 < 64"
      by (simp_all add: d_def m1_def m2_def div_less_iff_less_mult)
    moreover have "d = 0 \<longrightarrow> 32 \<le> m1"
      using e b \<open>d * 64 + m1 = e\<close> by auto
    moreover have "d = 13 \<longrightarrow> m1 < 32"
      using e b \<open>d * 64 + m1 = e\<close> by auto
    moreover from 3 assms have "ns = [0xE0 + d, 0x80 + m1, 0x80 + m2]"
      by (auto simp: encode_cp_def div_4096 e_def d_def m1_def m2_def split: if_splits)
    ultimately show ?thesis using decode_cps_3 [of d m1 m2 rest] by (simp add: c)
  next
    case 4
    with assms show ?thesis by (simp add: encode_cp_def)
  next
    case 5
    define e where "e = c div 64"
    define f where "f = e div 64"
    define d where "d = f div 64"
    define m1 where "m1 = f mod 64"
    define m2 where "m2 = e mod 64"
    define m3 where "m3 = c mod 64"
    have "e * 64 + m3 = c" "f * 64 + m2 = e" "d * 64 + m1 = f"
      by (simp_all add: e_def f_def d_def m1_def m2_def m3_def)
    then have c: "d * 262144 + m1 * 4096 + m2 * 64 + m3 = c" by simp
    from 5 have "1024 \<le> e" "e < 17408"
      by (simp_all add: e_def div_less_iff_less_mult less_eq_div_iff_mult_less_eq)
    then have f: "16 \<le> f" "f < 272"
      by (simp_all add: f_def div_less_iff_less_mult less_eq_div_iff_mult_less_eq)
    then have b: "d < 5" "m1 < 64" "m2 < 64" "m3 < 64"
      by (simp_all add: d_def m1_def m2_def m3_def div_less_iff_less_mult)
    moreover have "d = 0 \<longrightarrow> 16 \<le> m1"
      using f b \<open>d * 64 + m1 = f\<close> by auto
    moreover have "d = 4 \<longrightarrow> m1 < 16"
      using f b \<open>d * 64 + m1 = f\<close> by auto
    moreover from 5 assms have "ns = [0xF0 + d, 0x80 + m1, 0x80 + m2, 0x80 + m3]"
      by (simp add: encode_cp_def div_4096 div_262144 e_def f_def d_def m1_def m2_def m3_def)
    ultimately show ?thesis using decode_cps_4 [of d m1 m2 m3 rest] by (simp add: c)
  next
    case 6
    with assms show ?thesis by (simp add: encode_cp_def)
  qed
qed

lemma encode_cp_bytes: "encode_cp c = Some ns \<Longrightarrow> \<forall>n\<in>set ns. n < 256"
proof -
  assume a: "encode_cp c = Some ns"
  have "(c::nat) mod 64 < 64" "c div 64 mod 64 < 64" "c div 4096 mod 64 < 64" by simp_all
  moreover have "c < 0x800 \<Longrightarrow> c div 64 < 32" "c < 0x10000 \<Longrightarrow> c div 4096 < 16"
    "c < 0x110000 \<Longrightarrow> c div 262144 < 5"
    by (simp_all add: div_less_iff_less_mult)
  ultimately show ?thesis using a
    by (auto simp: encode_cp_def split: if_splits)
qed

lemma decode_encode_cps:
  "encode_cps t = Some ns \<Longrightarrow> decode_cps ns = Some t \<and> (\<forall>n\<in>set ns. n < 256)"
proof (induction t arbitrary: ns)
  case Nil
  then show ?case by simp
next
  case (Cons c t)
  then obtain a b where a: "encode_cp c = Some a" and b: "encode_cps t = Some b"
    and ns: "ns = a @ b" by (auto split: option.splits)
  from Cons.IH [OF b] decode_encode_cp [OF a, of b] encode_cp_bytes [OF a] ns
  show ?case by auto
qed

lemma unat_of_nat_bytes:
  "\<forall>n\<in>set ns. n < 256 \<Longrightarrow> map unat (map of_nat ns :: byte list) = ns"
  by (induction ns) (simp_all add: unat_of_nat)

lemma utf8_decode_encode: "utf8_encode t = Inr bs \<Longrightarrow> utf8_decode bs = Inr t"
proof -
  assume "utf8_encode t = Inr bs"
  then obtain ns where e: "encode_cps t = Some ns" and bs: "bs = map of_nat ns"
    by (auto simp: utf8_encode_def split: option.splits)
  from decode_encode_cps [OF e] have d: "decode_cps ns = Some t" and "\<forall>n\<in>set ns. n < 256"
    by simp_all
  from unat_of_nat_bytes [OF this(2)] bs have "map unat bs = ns" by simp
  with d show ?thesis by (simp add: utf8_decode_def)
qed

section \<open>The output drain on a whole stream\<close>

lemma readline_cases:
  "readline s = (l, r) \<Longrightarrow>
     (s = [] \<and> l = [] \<and> r = [])
     \<or> (\<exists>body. l = body @ [0x0A] \<and> 0x0A \<notin> set body \<and> s = l @ r)
     \<or> (l \<noteq> [] \<and> 0x0A \<notin> set l \<and> r = [] \<and> s = l)"
proof (induction s arbitrary: l r)
  case Nil
  then show ?case by simp
next
  case (Cons b s)
  show ?case
  proof (cases "b = 0x0A")
    case True
    with Cons.prems show ?thesis by auto
  next
    case False
    obtain l' r' where lr: "readline s = (l', r')" by (cases "readline s")
    with False Cons.prems have l: "l = b # l'" and r: "r = r'" by auto
    from Cons.IH [OF lr] show ?thesis
    proof (elim disjE exE conjE)
      assume "s = []" "l' = []" "r' = []"
      with l r False show ?thesis by simp
    next
      fix body assume "l' = body @ [0x0A]" "0x0A \<notin> set body" "s = l' @ r'"
      with l r False have "l = (b # body) @ [0x0A] \<and> 0x0A \<notin> set (b # body) \<and> b # s = l @ r"
        by simp
      then show ?thesis by blast
    next
      assume "l' \<noteq> []" "0x0A \<notin> set l'" "r' = []" "s = l'"
      with l r False show ?thesis by simp
    qed
  qed
qed

lemma readline_terminated:
  "0x0A \<notin> set body \<Longrightarrow> readline (body @ 0x0A # rest) = (body @ [0x0A], rest)"
  by (induction body) auto

lemma readline_fragment: "0x0A \<notin> set s \<Longrightarrow> readline s = (s, [])"
  by (induction s) auto

lemma stream_lines_Nil: "stream_lines [] = []"
  by (simp add: stream_lines.simps)

lemma stream_lines_terminated:
  "0x0A \<notin> set body \<Longrightarrow> stream_lines (body @ 0x0A # rest) = (body @ [0x0A]) # stream_lines rest"
  by (subst stream_lines.simps) (simp add: readline_terminated)

lemma stream_lines_fragment:
  "0x0A \<notin> set s \<Longrightarrow> s \<noteq> [] \<Longrightarrow> stream_lines s = [s]"
  by (subst stream_lines.simps) (simp add: readline_fragment stream_lines_Nil)

lemma concat_stream_lines: "concat (stream_lines s) = s"
proof (induction s rule: stream_lines.induct)
  case (1 s)
  obtain l r where lr: "readline s = (l, r)" by (cases "readline s")
  show ?case
  proof (cases "l = []")
    case True
    with lr readline_append [OF lr] show ?thesis
      by (subst stream_lines.simps) (use readline_cases [OF lr] in auto)
  next
    case False
    with 1 [OF lr [symmetric]] lr readline_append [OF lr] show ?thesis
      by (subst stream_lines.simps) simp
  qed
qed

lemma length_stream_lines:
  "length (stream_lines s) =
     count_list s 0x0A + (if s = [] \<or> last s = 0x0A then 0 else 1)"
proof (induction s rule: stream_lines.induct)
  case (1 s)
  obtain l r where lr: "readline s = (l, r)" by (cases "readline s")
  from readline_cases [OF lr] show ?case
  proof (elim disjE exE conjE)
    assume "s = []" "l = []" "r = []"
    then show ?thesis by (simp add: stream_lines_Nil)
  next
    fix body assume l: "l = body @ [0x0A]" and body: "0x0A \<notin> set body" and s: "s = l @ r"
    from l have "l \<noteq> []" by simp
    from 1 [OF lr [symmetric] this]
    have IH: "length (stream_lines r) =
                count_list r 0x0A + (if r = [] \<or> last r = 0x0A then 0 else 1)" .
    have "stream_lines s = l # stream_lines r"
      using stream_lines_terminated [OF body, of r] l s by simp
    moreover have "count_list s 0x0A = Suc (count_list r 0x0A)"
      using body l s by (simp add: count_list_0_iff)
    moreover have "(s = [] \<or> last s = 0x0A) \<longleftrightarrow> (r = [] \<or> last r = 0x0A)"
      using l s by auto
    ultimately show ?thesis using IH by simp
  next
    assume *: "l \<noteq> []" "0x0A \<notin> set l" "r = []" "s = l"
    then have "last l \<in> set l" by simp
    with * have "last s \<noteq> 0x0A" by metis
    with * show ?thesis
      by (simp add: stream_lines_fragment count_list_0_iff)
  qed
qed


lemma enqueue_output_put_lines: "enqueue_output s qu = put_lines (stream_lines s) qu"
proof (induction s qu rule: enqueue_output.induct)
  case (1 s qu)
  obtain l r where lr: "readline s = (l, r)" by (cases "readline s")
  show ?case
  proof (cases "l = []")
    case True
    with lr show ?thesis
      by (subst enqueue_output.simps, subst stream_lines.simps) (simp add: next_line_def)
  next
    case False
    show ?thesis
    proof (cases "utf8_decode l")
      case (Inl e)
      with lr False show ?thesis
        by (subst enqueue_output.simps, subst stream_lines.simps) (simp add: next_line_def)
    next
      case (Inr t)
      with lr False have nl: "next_line s = (Got (rstrip_nl t), r)"
        by (simp add: next_line_def)
      from 1 [OF nl [symmetric] refl] nl lr False Inr show ?thesis
        by (subst enqueue_output.simps, subst stream_lines.simps) simp
    qed
  qed
qed

lemma put_lines_good:
  "\<forall>raw\<in>set raws. \<exists>t. utf8_decode raw = Inr t \<Longrightarrow>
     \<exists>ls. put_lines raws qu = (Finished, qu @ ls) \<and> list_all2 line_text raws ls"
proof (induction raws arbitrary: qu)
  case Nil
  then show ?case by simp
next
  case (Cons raw raws)
  then obtain t where t: "utf8_decode raw = Inr t" by auto
  from Cons.IH [of "put (rstrip_nl t) qu"] Cons.prems
  obtain ls where "put_lines raws (put (rstrip_nl t) qu) = (Finished, put (rstrip_nl t) qu @ ls)"
    and "list_all2 line_text raws ls" by auto
  with t have "put_lines (raw # raws) qu = (Finished, qu @ rstrip_nl t # ls)
      \<and> list_all2 line_text (raw # raws) (rstrip_nl t # ls)"
    by (simp add: put_def line_text_def)
  then show ?case by blast
qed

lemma put_lines_bad:
  "\<forall>raw\<in>set good. \<exists>t. utf8_decode raw = Inr t \<Longrightarrow> utf8_decode bad = Inl err \<Longrightarrow>
     \<exists>ls. put_lines (good @ bad # after) qu = (Crashed err, qu @ ls) \<and> list_all2 line_text good ls"
proof (induction good arbitrary: qu)
  case Nil
  then show ?case by simp
next
  case (Cons raw raws)
  then obtain t where t: "utf8_decode raw = Inr t" by auto
  from Cons.IH [of "put (rstrip_nl t) qu"] Cons.prems
  obtain ls where "put_lines (raws @ bad # after) (put (rstrip_nl t) qu)
        = (Crashed err, put (rstrip_nl t) qu @ ls)"
    and "list_all2 line_text raws ls" by auto
  with t have "put_lines ((raw # raws) @ bad # after) qu = (Crashed err, qu @ rstrip_nl t # ls)
      \<and> list_all2 line_text (raw # raws) (rstrip_nl t # ls)"
    by (simp add: put_def line_text_def)
  then show ?case by blast
qed

lemma rstrip_nl_last: "rstrip_nl t \<noteq> [] \<Longrightarrow> last (rstrip_nl t) \<noteq> 0x0A"
  using hd_dropWhile [of "\<lambda>c. c = 0x0A" "rev t"]
  by (simp add: rstrip_nl_def last_rev)

lemma rstrip_nl_replicate: "\<exists>k. t = rstrip_nl t @ replicate k 0x0A"
proof -
  have "rev t = takeWhile (\<lambda>c. c = 0x0A) (rev t) @ dropWhile (\<lambda>c. c = 0x0A) (rev t)"
    by simp
  then have "t = rstrip_nl t @ rev (takeWhile (\<lambda>c. c = 0x0A) (rev t))"
    unfolding rstrip_nl_def by (metis rev_append rev_rev_ident)
  moreover have "\<exists>k. rev (takeWhile (\<lambda>c. c = 0x0A) (rev t)) = replicate k 0x0A"
    by (metis (mono_tags, lifting) replicate_length_same set_rev set_takeWhileD)
  ultimately show ?thesis by metis
qed

text \<open>A byte below \<open>0x80\<close> is a character of its own wherever it stands.\<close>

lemma decode_cps_ascii_split:
  "a < 0x80 \<Longrightarrow>
     decode_cps (bs @ a # rest) =
       (case decode_cps bs of
          None \<Rightarrow> None
        | Some t \<Rightarrow> map_option (\<lambda>u. t @ a # u) (decode_cps rest))"
proof (induction bs rule: decode_cps.induct)
  case 1
  then show ?case by (simp add: option.map_comp comp_def)
next
  case (2 b0 bs)
  show ?case
  proof (cases "b0 < 0x80")
    case True
    with 2 show ?thesis by (simp add: option.map_comp comp_def split: option.splits)
  next
    case n1: False
    show ?thesis
    proof (cases "0xC2 \<le> b0 \<and> b0 \<le> 0xDF")
      case True
      show ?thesis
      proof (cases bs)
        case Nil
        with n1 True 2(5) show ?thesis
          by (auto simp: is_cont_def split: list.splits)
      next
        case (Cons b1 r)
        with n1 True 2(2) [OF n1 True Cons] 2(5) show ?thesis
          by (simp add: option.map_comp comp_def split: option.splits)
      qed
    next
      case n2: False
      show ?thesis
      proof (cases "0xE0 \<le> b0 \<and> b0 \<le> 0xEF")
        case True
        show ?thesis
        proof (cases bs)
          case Nil
          with n1 n2 True 2(5) show ?thesis
            by (auto simp: is_cont_def split: list.splits)
        next
          case c1: (Cons b1 r1)
          show ?thesis
          proof (cases r1)
            case Nil
            with n1 n2 True c1 2(5) show ?thesis
              by (auto simp: is_cont_def split: list.splits)
          next
            case c2: (Cons b2 r)
            with n1 n2 True c1 2(3) [OF n1 n2 True c1 c2] 2(5) show ?thesis
              by (simp add: option.map_comp comp_def split: option.splits)
          qed
        qed
      next
        case n3: False
        show ?thesis
        proof (cases "0xF0 \<le> b0 \<and> b0 \<le> 0xF4")
          case True
          show ?thesis
          proof (cases bs)
            case Nil
            with n1 n2 n3 True 2(5) show ?thesis
              by (auto simp: is_cont_def split: list.splits)
          next
            case c1: (Cons b1 r1)
            show ?thesis
            proof (cases r1)
              case Nil
              with n1 n2 n3 True c1 2(5) show ?thesis
                by (auto simp: is_cont_def split: list.splits)
            next
              case c2: (Cons b2 r2)
              show ?thesis
              proof (cases r2)
                case Nil
                with n1 n2 n3 True c1 c2 2(5) show ?thesis
                  by (auto simp: is_cont_def split: list.splits)
              next
                case c3: (Cons b3 r)
                with n1 n2 n3 True c1 c2 2(4) [OF n1 n2 n3 True c1 c2 c3] 2(5) show ?thesis
                  by (simp add: option.map_comp comp_def split: option.splits)
              qed
            qed
          qed
        next
          case False
          with n1 n2 n3 have "(0x80 \<le> b0 \<and> b0 < 0xC2) \<or> 0xF4 < b0" by arith
          then show ?thesis by (elim disjE conjE) simp_all
        qed
      qed
    qed
  qed
qed

lemma decode_cps_snoc_ascii:
  "a < 0x80 \<Longrightarrow> decode_cps (bs @ [a]) = map_option (\<lambda>t. t @ [a]) (decode_cps bs)"
  by (simp add: decode_cps_ascii_split split: option.splits)

lemma utf8_decode_snoc_ascii:
  "a < 0x80 \<Longrightarrow>
     utf8_decode (bs @ [a]) =
       (case utf8_decode bs of Inl e \<Rightarrow> Inl e | Inr t \<Rightarrow> Inr (t @ [unat a]))"
proof -
  assume "a < 0x80"
  then have "unat a < 0x80" by (simp add: word_less_nat_alt)
  from decode_cps_snoc_ascii [OF this, of "map unat bs"] show ?thesis
    by (auto simp: utf8_decode_def split: option.splits)
qed

lemma utf8_decode_crlf:
  "utf8_decode (body @ [0x0D, 0x0A]) = Inr t \<Longrightarrow>
     \<exists>t'. utf8_decode body = Inr t' \<and> t = t' @ [0x0D, 0x0A]"
proof -
  assume a: "utf8_decode (body @ [0x0D, 0x0A]) = Inr t"
  have eq: "(body @ [0x0D]) @ [0x0A] = body @ [0x0D, 0x0A]" by simp
  from a have "utf8_decode ((body @ [0x0D]) @ [0x0A]) = Inr t" by (simp only: eq)
  then obtain u where u: "utf8_decode (body @ [0x0D]) = Inr u" and t: "t = u @ [0x0A]"
    by (subst (asm) utf8_decode_snoc_ascii) (auto split: sum.splits)
  from u obtain t' where "utf8_decode body = Inr t'" and "u = t' @ [0x0D]"
    by (subst (asm) utf8_decode_snoc_ascii) (auto split: sum.splits)
  with t show ?thesis by simp
qed

lemma next_line_item:
  assumes "next_line stream = (Got x, rest)"
  shows "\<exists>raw t k. stream = raw @ rest \<and> utf8_decode raw = Inr t
           \<and> t = x @ replicate k 0x0A \<and> (x = [] \<or> last x \<noteq> 0x0A)"
proof -
  obtain l r where lr: "readline stream = (l, r)" by (cases "readline stream")
  with assms obtain t where "utf8_decode l = Inr t" and "x = rstrip_nl t" and "rest = r"
    by (auto simp: next_line_def split: if_splits sum.splits)
  with readline_append [OF lr] rstrip_nl_replicate [of t] rstrip_nl_last [of t]
  show ?thesis by metis
qed

lemma rstrip_nl_crlf: "rstrip_nl (t @ [0x0D, 0x0A]) = t @ [0x0D]"
  by (simp add: rstrip_nl_def)

lemma next_line_crlf:
  assumes "0x0A \<notin> set body" and "utf8_decode (body @ [0x0D, 0x0A]) = Inr t"
  shows "\<exists>x. next_line (body @ [0x0D, 0x0A] @ rest) = (Got x, rest)
           \<and> t = x @ [0x0A] \<and> x \<noteq> [] \<and> last x = 0x0D"
proof -
  from assms(1) have nl: "0x0A \<notin> set (body @ [0x0D])" by simp
  from readline_terminated [OF nl, of rest]
  have rl: "readline (body @ [0x0D, 0x0A] @ rest) = (body @ [0x0D, 0x0A], rest)" by simp
  from utf8_decode_crlf [OF assms(2)] obtain t' where "t = t' @ [0x0D, 0x0A]" by blast
  with rl assms(2) show ?thesis
    by (simp add: next_line_def rstrip_nl_crlf)
qed

lemma utf8_decode_line_split:
  "utf8_decode (body @ 0x0A # rest) = Inr t \<longleftrightarrow>
     (\<exists>u v. utf8_decode (body @ [0x0A]) = Inr u \<and> utf8_decode rest = Inr v \<and> t = u @ v)"
proof -
  have "(10::nat) < 0x80" by simp
  from decode_cps_ascii_split [OF this, of "map unat body" "map unat rest"]
       decode_cps_ascii_split [OF this, of "map unat body" "[]"]
  show ?thesis
    by (auto simp: utf8_decode_def split: option.splits)
qed

lemma stream_lines_decodable:
  "(\<forall>raw\<in>set (stream_lines s). \<exists>t. utf8_decode raw = Inr t) \<longleftrightarrow> (\<exists>t. utf8_decode s = Inr t)"
proof (induction s rule: stream_lines.induct)
  case (1 s)
  obtain l r where lr: "readline s = (l, r)" by (cases "readline s")
  from readline_cases [OF lr] show ?case
  proof (elim disjE exE conjE)
    assume "s = []" "l = []" "r = []"
    then show ?thesis by (simp add: stream_lines_Nil utf8_decode_def)
  next
    fix body assume l: "l = body @ [0x0A]" and body: "0x0A \<notin> set body" and s: "s = l @ r"
    from l have "l \<noteq> []" by simp
    from 1 [OF lr [symmetric] this]
    have IH: "(\<forall>raw\<in>set (stream_lines r). \<exists>t. utf8_decode raw = Inr t)
                \<longleftrightarrow> (\<exists>t. utf8_decode r = Inr t)" .
    have sl: "stream_lines s = l # stream_lines r"
      using stream_lines_terminated [OF body, of r] l s by simp
    have "s = body @ 0x0A # r" using l s by simp
    then have "(\<exists>t. utf8_decode s = Inr t)
                 \<longleftrightarrow> (\<exists>u. utf8_decode l = Inr u) \<and> (\<exists>v. utf8_decode r = Inr v)"
      using utf8_decode_line_split [of body r] l by auto
    with IH sl show ?thesis by auto
  next
    assume "l \<noteq> []" "0x0A \<notin> set l" "r = []" "s = l"
    then show ?thesis by (simp add: stream_lines_fragment)
  qed
qed

text \<open>
  C6, as the code has it. For every sequence of raw bytes that is valid UTF-8, the
  drain ends normally and has put one item per raw line of the stream, in the order of
  the stream: one for each of the \<open>n\<close> terminator bytes, and one more, a final
  partial line, when the stream ends with an unterminated fragment. Each item is the
  text of its raw line without the terminator, and no item ends with one.
\<close>

theorem drain_produces_one_line_per_terminator:
  assumes "utf8_decode stream = Inr t"
  shows "\<exists>ls. enqueue_output stream qu = (Finished, qu @ ls)
           \<and> concat (stream_lines stream) = stream
           \<and> list_all2 line_text (stream_lines stream) ls
           \<and> length ls = count_list stream 0x0A
                          + (if stream = [] \<or> last stream = 0x0A then 0 else 1)
           \<and> (\<forall>x\<in>set ls. x = [] \<or> last x \<noteq> 0x0A)"
proof -
  from assms have "\<forall>raw\<in>set (stream_lines stream). \<exists>t. utf8_decode raw = Inr t"
    by (simp only: stream_lines_decodable) blast
  from put_lines_good [OF this, of qu] obtain ls
    where out: "enqueue_output stream qu = (Finished, qu @ ls)"
      and all2: "list_all2 line_text (stream_lines stream) ls"
    by (auto simp: enqueue_output_put_lines)
  from all2 have "length ls = length (stream_lines stream)"
    by (simp add: list_all2_lengthD)
  then have len: "length ls = count_list stream 0x0A
                          + (if stream = [] \<or> last stream = 0x0A then 0 else 1)"
    by (simp only: length_stream_lines)
  have "\<forall>x\<in>set ls. x = [] \<or> last x \<noteq> 0x0A"
  proof
    fix x assume "x \<in> set ls"
    with all2 obtain raw where "line_text raw x"
      by (metis in_set_conv_nth list_all2_conv_all_nth)
    then show "x = [] \<or> last x \<noteq> 0x0A"
      using rstrip_nl_last by (auto simp: line_text_def split: sum.splits)
  qed
  with out all2 len concat_stream_lines [of stream] show ?thesis by blast
qed

theorem drain_produces_one_line_per_terminator_witness:
  "utf8_decode [0x61, 0x0D, 0x0A, 0x62, 0x0A, 0x63] = Inr [0x61, 0x0D, 0x0A, 0x62, 0x0A, 0x63]
   \<and> stream_lines [0x61, 0x0D, 0x0A, 0x62, 0x0A, 0x63]
       = [[0x61, 0x0D, 0x0A], [0x62, 0x0A], [0x63]]
   \<and> utf8_decode [0x61, 0x0D, 0x0A] = Inr [0x61, 0x0D, 0x0A]
   \<and> utf8_decode [0x62, 0x0A] = Inr [0x62, 0x0A]
   \<and> utf8_decode [0x63] = Inr [0x63]
   \<and> count_list [0x61, 0x0D, 0x0A, 0x62, 0x0A, 0x63 :: byte] 0x0A = 2
   \<and> (\<exists>ls. enqueue_output [0x61, 0x0D, 0x0A, 0x62, 0x0A, 0x63] [] = (Finished, ls)
            \<and> length ls = 3)
   \<and> enqueue_output [0x61, 0x0D, 0x0A, 0x62, 0x0A, 0x63] []
       = (Finished, [[0x61, 0x0D], [0x62], [0x63]])"
proof -
  let ?S = "[0x61, 0x0D, 0x0A, 0x62, 0x0A, 0x63] :: bytes"
  have lines: "stream_lines ?S = [[0x61, 0x0D, 0x0A], [0x62, 0x0A], [0x63]]"
    by (simp add: stream_lines.simps)
  have d1: "utf8_decode [0x61, 0x0D, 0x0A] = Inr [0x61, 0x0D, 0x0A]"
    and d2: "utf8_decode [0x62, 0x0A] = Inr [0x62, 0x0A]"
    and d3: "utf8_decode [0x63] = Inr [0x63]"
    by (simp_all add: utf8_decode_def)
  have hyp: "utf8_decode ?S = Inr [0x61, 0x0D, 0x0A, 0x62, 0x0A, 0x63]"
    by (simp add: utf8_decode_def)
  have cnt: "count_list ?S 0x0A = 2" by simp
  from drain_produces_one_line_per_terminator [OF hyp, of "[]"]
  have ex: "\<exists>ls. enqueue_output ?S [] = (Finished, ls) \<and> length ls = 3"
    by (auto simp: cnt)
  have out: "enqueue_output ?S [] = (Finished, [[0x61, 0x0D], [0x62], [0x63]])"
    by (simp add: enqueue_output.simps next_line_def utf8_decode_def put_def rstrip_nl_def)
  from hyp lines d1 d2 d3 cnt ex out show ?thesis by blast
qed

text \<open>
  The claim as written, for every sequence of raw bytes, fails on a line that is not
  UTF-8: one terminator byte, and no item is produced.
\<close>

theorem drain_line_count_counterexample:
  "count_list [0xFF, 0x0A :: byte] 0x0A = 1
   \<and> enqueue_output [0xFF, 0x0A] [] = (Crashed UnicodeDecodeError, [])"
  by (simp add: enqueue_output.simps next_line_def utf8_decode_def)

text \<open>
  C2, as the code has it. A line whose bytes fail UTF-8 decoding ends the drain: the
  thread dies with \<^verbatim>\<open>UnicodeDecodeError\<close>, having put exactly the items of the lines
  before the offending one; neither that line nor any later line of the stream,
  well-formed or not, is ever produced.
\<close>

theorem drain_ends_at_undecodable_line:
  assumes "stream_lines stream = good @ bad # after"
      and "\<forall>raw\<in>set good. \<exists>t. utf8_decode raw = Inr t"
      and "utf8_decode bad = Inl err"
  shows "\<exists>ls. enqueue_output stream qu = (Crashed err, qu @ ls) \<and> list_all2 line_text good ls"
  using put_lines_bad [OF assms(2,3), of after qu] assms(1)
  by (simp add: enqueue_output_put_lines)

theorem drain_ends_at_undecodable_line_witness:
  "stream_lines ([0x6F, 0x6B, 0x0A] @ [0xFF, 0x0A] @ [0x61, 0x0A])
     = [[0x6F, 0x6B, 0x0A]] @ [0xFF, 0x0A] # [[0x61, 0x0A]]
   \<and> utf8_decode [0x6F, 0x6B, 0x0A] = Inr [0x6F, 0x6B, 0x0A]
   \<and> utf8_decode [0xFF, 0x0A] = Inl UnicodeDecodeError
   \<and> (\<exists>ls. enqueue_output ([0x6F, 0x6B, 0x0A] @ [0xFF, 0x0A] @ [0x61, 0x0A]) []
               = (Crashed UnicodeDecodeError, ls) \<and> length ls = 1)
   \<and> enqueue_output ([0x6F, 0x6B, 0x0A] @ [0xFF, 0x0A] @ [0x61, 0x0A]) []
       = (Crashed UnicodeDecodeError, [[0x6F, 0x6B]])"
proof -
  let ?S = "[0x6F, 0x6B, 0x0A] @ [0xFF, 0x0A] @ [0x61, 0x0A] :: bytes"
  have lines: "stream_lines ?S = [[0x6F, 0x6B, 0x0A]] @ [0xFF, 0x0A] # [[0x61, 0x0A]]"
    by (simp add: stream_lines.simps)
  have good: "utf8_decode [0x6F, 0x6B, 0x0A] = Inr [0x6F, 0x6B, 0x0A]"
    and bad: "utf8_decode [0xFF, 0x0A] = Inl UnicodeDecodeError"
    by (simp_all add: utf8_decode_def)
  have hyp: "\<forall>raw\<in>set [[0x6F, 0x6B, 0x0A]]. \<exists>t. utf8_decode raw = Inr t"
    by (simp add: good)
  from drain_ends_at_undecodable_line [OF lines hyp bad, of "[]"]
  have ex: "\<exists>ls. enqueue_output ?S [] = (Crashed UnicodeDecodeError, ls) \<and> length ls = 1"
    by (auto dest: list_all2_lengthD)
  have out: "enqueue_output ?S [] = (Crashed UnicodeDecodeError, [[0x6F, 0x6B]])"
    by (simp add: enqueue_output.simps next_line_def utf8_decode_def put_def rstrip_nl_def)
  from lines good bad ex out show ?thesis by blast
qed

text \<open>
  The claim as written fails: after a line that is not UTF-8 the drain has crashed, and
  the well-formed line \<open>aeiok\<close> that follows it is never produced.
\<close>

theorem drain_decode_crash_counterexample:
  "utf8_decode (ascii ''aeiok'' @ [0x0A]) = Inr (str ''aeiok'' @ [0x0A])
   \<and> enqueue_output ([0xFF, 0x0A] @ ascii ''aeiok'' @ [0x0A]) []
       = (Crashed UnicodeDecodeError, [])"
  by (simp add: enqueue_output.simps next_line_def utf8_decode_def ascii_def str_def)

section \<open>Schedules of the session\<close>

lemma send_frame:
  "send c e = Inr e' \<Longrightarrow>
     running e' = running e \<and> stdin_closed e' = stdin_closed e \<and> stdout_pipe e' = stdout_pipe e"
  by (auto simp: send_def stdin_write_def stdin_flush_def split: sum.splits if_splits)

lemma send_all_frame:
  "send_all cs e = (r, e') \<Longrightarrow>
     running e' = running e \<and> stdin_closed e' = stdin_closed e \<and> stdout_pipe e' = stdout_pipe e"
proof (induction cs arbitrary: e)
  case Nil
  then show ?case by simp
next
  case (Cons c cs)
  show ?case
  proof (cases "send c e")
    case (Inl err)
    with Cons.prems show ?thesis by simp
  next
    case (Inr e1)
    with Cons.prems have "send_all cs e1 = (r, e')" by simp
    from send_frame [OF Inr] Cons.IH [OF this] show ?thesis by simp
  qed
qed

lemma enter_frame [simp]:
  "q (enter p cs s) = q s"
  "produced (enter p cs s) = produced s"
  "console (enter p cs s) = console s"
  "drain (enter p cs s) = drain s"
  "bestmove (enter p cs s) = bestmove s"
  by (simp_all add: enter_def split: prod.splits option.splits)

lemma enter_engine [simp]:
  "running (engine (enter p cs s)) = running (engine s)"
  "stdin_closed (engine (enter p cs s)) = stdin_closed (engine s)"
  "stdout_pipe (engine (enter p cs s)) = stdout_pipe (engine s)"
  by (auto simp: enter_def split: prod.splits option.splits dest: send_all_frame)

lemma phase_enter: "phase (enter p cs s) = p \<or> (\<exists>err. phase (enter p cs s) = FAILED err)"
  by (simp add: enter_def split: prod.splits option.splits)

lemma engine_lines_append [simp]: "engine_lines (a @ b) = engine_lines a @ engine_lines b"
  by (induction a rule: engine_lines.induct) auto

lemma rank_le_7: "rank p \<le> 7"
  by (cases p) auto

lemma rank_enter_le [simp]: "n \<le> rank p \<Longrightarrow> n \<le> rank (phase (enter p cs s))"
  using phase_enter [of p cs s] rank_le_7 [of p] by auto

lemma rank_enter_less [simp]: "n < rank p \<Longrightarrow> n < rank (phase (enter p cs s))"
  using phase_enter [of p cs s] rank_le_7 [of p] by auto

lemma driver_step_fifo:
  "driver_step s = Some s' \<Longrightarrow>
     produced s' = produced s \<and> drain s' = drain s
     \<and> engine_lines (console s') @ q s' = engine_lines (console s) @ q s"
  by (auto simp: driver_step_def get_def print_line_def print_final_def
      split: phase.splits list.splits if_splits)

lemma drain_step_fifo:
  "drain_step s = Some s' \<Longrightarrow>
     phase s' = phase s \<and> console s' = console s \<and> bestmove s' = bestmove s
     \<and> (\<exists>new. q s' = q s @ new \<and> produced s' = produced s @ new)"
  by (auto simp: drain_step_def put_def split: if_splits prod.splits item.splits)

lemma engine_emit_frame:
  "engine_emit bs s = Some s' \<Longrightarrow>
     phase s' = phase s \<and> console s' = console s \<and> bestmove s' = bestmove s
     \<and> q s' = q s \<and> produced s' = produced s \<and> drain s' = drain s"
  by (auto simp: engine_emit_def split: if_splits)

lemma engine_exit_frame:
  "engine_exit s = Some s' \<Longrightarrow>
     phase s' = phase s \<and> console s' = console s \<and> bestmove s' = bestmove s
     \<and> q s' = q s \<and> produced s' = produced s \<and> drain s' = drain s"
  by (auto simp: engine_exit_def split: if_splits)

lemma step_fifo:
  "step a s = Some s' \<Longrightarrow> engine_lines (console s) @ q s = produced s \<Longrightarrow>
     engine_lines (console s') @ q s' = produced s'"
proof (cases a)
  case (Emit bs)
  assume "step a s = Some s'" "engine_lines (console s) @ q s = produced s"
  with Emit engine_emit_frame [of bs s s'] show ?thesis by simp
next
  case Exit
  assume "step a s = Some s'" "engine_lines (console s) @ q s = produced s"
  with Exit engine_exit_frame [of s s'] show ?thesis by simp
next
  case Drain
  assume "step a s = Some s'" "engine_lines (console s) @ q s = produced s"
  with Drain drain_step_fifo [of s s'] show ?thesis by auto
next
  case Driver
  assume "step a s = Some s'" "engine_lines (console s) @ q s = produced s"
  with Driver driver_step_fifo [of s s'] show ?thesis by simp
qed

lemma exec_fifo:
  "exec acts s = Some s' \<Longrightarrow> engine_lines (console s) @ q s = produced s \<Longrightarrow>
     engine_lines (console s') @ q s' = produced s'"
proof (induction acts arbitrary: s)
  case Nil
  then show ?case by simp
next
  case (Cons a acts)
  then obtain s1 where 1: "step a s = Some s1" and 2: "exec acts s1 = Some s'"
    by (auto split: option.splits)
  from Cons.IH [OF 2 step_fifo [OF 1 Cons.prems(2)]] show ?case .
qed

lemma driver_step_rank: "driver_step s = Some s' \<Longrightarrow> rank (phase s) \<le> rank (phase s')"
  by (cases "phase s")
     (auto simp: driver_step_def get_def print_line_def print_final_def
        split: list.splits if_splits)

lemma step_rank: "step a s = Some s' \<Longrightarrow> rank (phase s) \<le> rank (phase s')"
  using drain_step_fifo [of s s'] engine_exit_frame [of s s'] driver_step_rank [of s s']
    engine_emit_frame [of _ s s']
  by (cases a) auto

lemma step_consumed:
  "step a s = Some s' \<Longrightarrow> \<exists>ls. engine_lines (console s') = engine_lines (console s) @ ls"
proof (cases a)
  case Driver
  assume "step a s = Some s'"
  with Driver show ?thesis
    by (cases "phase s")
       (auto simp: driver_step_def get_def print_line_def print_final_def
          split: list.splits if_splits)
next
  case (Emit bs)
  assume "step a s = Some s'"
  with Emit engine_emit_frame [of bs s s'] show ?thesis by simp
next
  case Exit
  assume "step a s = Some s'"
  with Exit engine_exit_frame [of s s'] show ?thesis by simp
next
  case Drain
  assume "step a s = Some s'"
  with Drain drain_step_fifo [of s s'] show ?thesis by simp
qed

lemma exec_rank: "exec acts s = Some s' \<Longrightarrow> rank (phase s) \<le> rank (phase s')"
proof (induction acts arbitrary: s)
  case Nil
  then show ?case by simp
next
  case (Cons a acts)
  then obtain s1 where 1: "step a s = Some s1" and 2: "exec acts s1 = Some s'"
    by (auto split: option.splits)
  from step_rank [OF 1] Cons.IH [OF 2] show ?case by simp
qed

lemma exec_consumed:
  "exec acts s = Some s' \<Longrightarrow> \<exists>ls. engine_lines (console s') = engine_lines (console s) @ ls"
proof (induction acts arbitrary: s)
  case Nil
  then show ?case by simp
next
  case (Cons a acts)
  then obtain s1 where 1: "step a s = Some s1" and 2: "exec acts s1 = Some s'"
    by (auto split: option.splits)
  from step_consumed [OF 1] Cons.IH [OF 2] show ?case by auto
qed

text \<open>One step of a waiting driver: nothing popped, or one line popped and tested.\<close>

lemma waiting_step:
  assumes "p = INIT \<or> p = READY_CHECK \<or> p = SEARCHING"
      and "phase s = p" and "step a s = Some s'"
  shows "(engine_lines (console s') = engine_lines (console s) \<and> phase s' = p)
       \<or> (\<exists>x. engine_lines (console s') = engine_lines (console s) @ [x]
              \<and> (if sentinel p x then rank p < rank (phase s') else phase s' = p))"
proof (cases a)
  case Driver
  show ?thesis
  proof (cases "q s")
    case Nil
    with assms Driver show ?thesis
      by (auto simp: driver_step_def get_def)
  next
    case (Cons x rest)
    with assms Driver
    have "engine_lines (console s') = engine_lines (console s) @ [x]
        \<and> (if sentinel p x then rank p < rank (phase s') else phase s' = p)"
      by (auto simp: driver_step_def get_def print_line_def print_final_def)
    then show ?thesis by blast
  qed
next
  case (Emit bs)
  with assms engine_emit_frame [of bs s s'] show ?thesis by simp
next
  case Exit
  with assms engine_exit_frame [of s s'] show ?thesis by simp
next
  case Drain
  with assms drain_step_fifo [of s s'] show ?thesis by simp
qed

lemma waiting_exec:
  assumes "p = INIT \<or> p = READY_CHECK \<or> p = SEARCHING"
  shows "phase s = p \<Longrightarrow> exec acts s = Some s' \<Longrightarrow>
     \<exists>ls. engine_lines (console s') = engine_lines (console s) @ ls
          \<and> (phase s' = p \<longleftrightarrow> \<not> (\<exists>x\<in>set ls. sentinel p x))"
proof (induction acts arbitrary: s)
  case Nil
  then show ?case by simp
next
  case (Cons a acts)
  then obtain s1 where 1: "step a s = Some s1" and 2: "exec acts s1 = Some s'"
    by (auto split: option.splits)
  from waiting_step [OF assms Cons.prems(1) 1] show ?case
  proof (elim disjE exE conjE)
    assume same: "engine_lines (console s1) = engine_lines (console s)" and p1: "phase s1 = p"
    from Cons.IH [OF p1 2] same show ?thesis by simp
  next
    fix x
    assume app: "engine_lines (console s1) = engine_lines (console s) @ [x]"
      and test: "if sentinel p x then rank p < rank (phase s1) else phase s1 = p"
    show ?thesis
    proof (cases "sentinel p x")
      case True
      with test exec_rank [OF 2] have "rank p < rank (phase s')" by simp
      then have out: "phase s' \<noteq> p" by auto
      from exec_consumed [OF 2] app obtain ls
        where "engine_lines (console s') = engine_lines (console s) @ x # ls" by auto
      with True out show ?thesis by auto
    next
      case False
      with test have p1: "phase s1 = p" by simp
      from Cons.IH [OF p1 2] obtain ls
        where "engine_lines (console s') = engine_lines (console s1) @ ls"
          and "phase s' = p \<longleftrightarrow> \<not> (\<exists>x\<in>set ls. sentinel p x)" by blast
      with app False have "engine_lines (console s') = engine_lines (console s) @ x # ls
          \<and> (phase s' = p \<longleftrightarrow> \<not> (\<exists>y\<in>set (x # ls). sentinel p y))"
        by simp
      then show ?thesis by blast
    qed
  qed
qed

lemmas run_defs =
  engine_emit_def engine_exit_def drain_step_def driver_step_def next_line_def
  utf8_decode_def is_cont_def rstrip_nl_def put_def get_def enter_def send_def
  utf8_encode_def encode_cp_def stdin_write_def stdin_flush_def print_line_def
  print_final_def strip_def is_space_def startswith_def str_def ascii_def
  setposition_def initial_def

lemma exec_append:
  "exec (as @ bs) s = (case exec as s of None \<Rightarrow> None | Some s1 \<Rightarrow> exec bs s1)"
  by (induction as arbitrary: s) (auto split: option.splits)

lemma poll_empty: "phase s = SEARCHING \<Longrightarrow> q s = [] \<Longrightarrow> exec (replicate n Driver) s = Some s"
  by (induction n) (simp_all add: driver_step_def get_def)

lemma blocked_iff_empty:
  "phase s = INIT \<or> phase s = READY_CHECK \<Longrightarrow> driver_step s = None \<longleftrightarrow> q s = []"
  by (auto simp: driver_step_def get_def split: list.splits)

lemma stuck_step:
  assumes "phase s = INIT \<or> phase s = READY_CHECK" and "q s = []" and "drain s \<noteq> Draining"
      and "step a s = Some s'"
  shows "q s' = [] \<and> drain s' = drain s \<and> phase s' = phase s"
proof (cases a)
  case (Emit bs)
  with assms engine_emit_frame [of bs s s'] show ?thesis by simp
next
  case Exit
  with assms engine_exit_frame [of s s'] show ?thesis by simp
next
  case Drain
  with assms show ?thesis by (simp add: drain_step_def)
next
  case Driver
  with assms blocked_iff_empty [of s] show ?thesis by simp
qed

lemma stuck_exec:
  "phase s = INIT \<or> phase s = READY_CHECK \<Longrightarrow> q s = [] \<Longrightarrow> drain s \<noteq> Draining \<Longrightarrow>
     exec acts s = Some s' \<Longrightarrow> q s' = [] \<and> drain s' = drain s \<and> phase s' = phase s"
proof (induction acts arbitrary: s)
  case Nil
  then show ?case by simp
next
  case (Cons a acts)
  then obtain s1 where 1: "step a s = Some s1" and 2: "exec acts s1 = Some s'"
    by (auto split: option.splits)
  from stuck_step [OF Cons.prems(1,2,3) 1]
  have *: "q s1 = []" "drain s1 = drain s" "phase s1 = phase s" by simp_all
  with Cons.prems have "phase s1 = INIT \<or> phase s1 = READY_CHECK" "drain s1 \<noteq> Draining"
    by simp_all
  from Cons.IH [OF this(1) *(1) this(2) 2] * show ?case by simp
qed

lemma found_bestmove:
  assumes "phase s = SEARCHING" and "q s = line # rest"
      and "startswith line (str ''bestmove'')"
  shows "\<exists>s'. driver_step s = Some s' \<and> bestmove s' = Some line
            \<and> console s' = console s @ [ENGINE line, FINAL line]
            \<and> q s' = rest \<and> phase s' \<noteq> SEARCHING"
proof -
  have "phase (enter DONE [str ''quit''] s0) \<noteq> SEARCHING" for s0
    using phase_enter [of DONE "[str ''quit'']" s0] by auto
  with assms show ?thesis
    by (simp add: driver_step_def get_def print_line_def print_final_def)
qed

lemma drain_step_line:
  assumes "drain s = Draining" and "0x0A \<in> set (stdout_pipe (engine s))"
      and "next_line (stdout_pipe (engine s)) = (Got x, rest)"
  shows "drain_step s =
           Some (s\<lparr>engine := (engine s)\<lparr>stdout_pipe := rest\<rparr>,
                   q := put x (q s), produced := produced s @ [x]\<rparr>)"
  using assms by (simp add: drain_step_def)

text \<open>
  The drain thread of a session and \<open>enqueue_output\<close> on a whole stream are the same
  loop: once the engine has exited, the turns of the thread end with the status and the
  queue that \<open>enqueue_output\<close> gives for what is left in the pipe.
\<close>

lemma drain_thread_runs_enqueue_output:
  "\<not> running (engine s) \<Longrightarrow> drain s = Draining \<Longrightarrow> stdout_pipe (engine s) = stream \<Longrightarrow>
     q s = qu \<Longrightarrow>
     \<exists>n s'. exec (replicate n Drain) s = Some s' \<and> (drain s', q s') = enqueue_output stream qu"
proof (induction stream qu arbitrary: s rule: enqueue_output.induct)
  case (1 stream qu)
  obtain it rest where nl: "next_line stream = (it, rest)" by (cases "next_line stream")
  show ?case
  proof (cases it)
    case Eof
    with nl 1(2-) have "exec (replicate 1 Drain) s = Some (s\<lparr>drain := Finished\<rparr>)"
      by (simp add: drain_step_def)
    moreover from nl Eof have "enqueue_output stream qu = (Finished, qu)"
      by (subst enqueue_output.simps) simp
    ultimately show ?thesis using 1(5) by (intro exI [of _ 1]) simp
  next
    case (Raised e)
    with nl 1(2-)
    have "exec (replicate 1 Drain) s
            = Some (s\<lparr>engine := (engine s)\<lparr>stdout_pipe := rest\<rparr>, drain := Crashed e\<rparr>)"
      by (simp add: drain_step_def)
    moreover from nl Raised have "enqueue_output stream qu = (Crashed e, qu)"
      by (subst enqueue_output.simps) simp
    ultimately show ?thesis using 1(5) by (intro exI [of _ 1]) simp
  next
    case (Got x)
    let ?s1 = "s\<lparr>engine := (engine s)\<lparr>stdout_pipe := rest\<rparr>,
                  q := put x (q s), produced := produced s @ [x]\<rparr>"
    from nl Got 1(2-) have st: "drain_step s = Some ?s1"
      by (simp add: drain_step_def)
    from nl Got have nl': "(it, rest) = next_line stream" "it = Got x" by simp_all
    from 1(1) [OF nl', of ?s1] 1(2-)
    obtain n s' where "exec (replicate n Drain) ?s1 = Some s'"
      and "(drain s', q s') = enqueue_output rest (put x qu)" by auto
    moreover from nl Got have "enqueue_output stream qu = enqueue_output rest (put x qu)"
      by (subst enqueue_output.simps) simp
    ultimately have "exec (replicate (Suc n) Drain) s = Some s'
        \<and> (drain s', q s') = enqueue_output stream qu"
      using st by simp
    then show ?thesis by blast
  qed
qed

section \<open>The protocol driver\<close>

text \<open>
  C9. Every line reaches the driver in exactly the order in which the drain produced
  it: under every schedule of engine, drain thread and main thread, in every phase, the
  lines the driver has popped so far (each is printed when popped), followed by the
  lines still on the queue, are the lines the drain has put, in the order of the puts.
  So none is skipped, reordered or merged with another.
\<close>

theorem lines_delivered_in_fifo_order:
  assumes "exec acts initial = Some s"
  shows "engine_lines (console s) @ q s = produced s"
  using exec_fifo [OF assms] by (simp add: initial_def)

text \<open>Three lines produced, two of them popped, the third still queued.\<close>

theorem lines_delivered_in_fifo_order_witness:
  "\<exists>s. exec [Driver,
              Emit (ascii ''protocol-version 1'' @ [0x0A] @ ascii ''id name Foo'' @ [0x0A]
                    @ ascii ''aeiok'' @ [0x0A]),
              Drain, Drain, Driver, Drain, Driver] initial = Some s
       \<and> produced s = [str ''protocol-version 1'', str ''id name Foo'', str ''aeiok'']
       \<and> q s = [str ''aeiok'']
       \<and> engine_lines (console s) = [str ''protocol-version 1'', str ''id name Foo'']"
proof -
  let ?acts = "[Driver,
              Emit (ascii ''protocol-version 1'' @ [0x0A] @ ascii ''id name Foo'' @ [0x0A]
                    @ ascii ''aeiok'' @ [0x0A]),
              Drain, Drain, Driver, Drain, Driver]"
  have "\<exists>s. exec ?acts initial = Some s
       \<and> produced s = [str ''protocol-version 1'', str ''id name Foo'', str ''aeiok'']
       \<and> q s = [str ''aeiok'']"
    by (simp add: run_defs)
  then obtain s where e: "exec ?acts initial = Some s"
    and p: "produced s = [str ''protocol-version 1'', str ''id name Foo'', str ''aeiok'']"
    and qs: "q s = [str ''aeiok'']" by blast
  from lines_delivered_in_fifo_order [OF e] p qs
  have "engine_lines (console s) = [str ''protocol-version 1'', str ''id name Foo'']"
    by simp
  with e p qs show ?thesis by blast
qed

text \<open>
  C3, as the code has it. The driver compares \<^verbatim>\<open>line.strip()\<close> with the sentinel, so
  leading and trailing whitespace of every kind is removed before the comparison, not
  only newlines. Under every schedule, a driver that was in INIT is still in INIT
  exactly when none of the lines popped since equals \<open>aeiok\<close> after stripping, and
  likewise for READY_CHECK and \<open>readyok\<close>. A whitespace-padded sentinel therefore
  does match and ends the wait.
\<close>

theorem handshake_waits_for_stripped_sentinel:
  assumes "exec acts s = Some s'"
  shows "\<exists>ls. engine_lines (console s') = engine_lines (console s) @ ls
     \<and> (phase s = INIT \<longrightarrow>
          (phase s' = INIT \<longleftrightarrow> \<not> (\<exists>x\<in>set ls. strip x = str ''aeiok'')))
     \<and> (phase s = READY_CHECK \<longrightarrow>
          (phase s' = READY_CHECK \<longleftrightarrow> \<not> (\<exists>x\<in>set ls. strip x = str ''readyok'')))"
proof -
  from exec_consumed [OF assms] obtain ls
    where ls: "engine_lines (console s') = engine_lines (console s) @ ls" by blast
  have "phase s' = INIT \<longleftrightarrow> \<not> (\<exists>x\<in>set ls. strip x = str ''aeiok'')" if "phase s = INIT"
    using waiting_exec [of INIT s acts s'] that assms ls by auto
  moreover
  have "phase s' = READY_CHECK \<longleftrightarrow> \<not> (\<exists>x\<in>set ls. strip x = str ''readyok'')"
    if "phase s = READY_CHECK"
    using waiting_exec [of READY_CHECK s acts s'] that assms ls by auto
  ultimately show ?thesis using ls by blast
qed

text \<open>
  The handshake of the spec's first scenario: two lines are passed over, \<open>aeiok\<close>
  ends INIT; then \<open>readyok\<close> followed by a carriage return ends READY_CHECK.
\<close>

theorem handshake_waits_for_stripped_sentinel_witness:
  "\<exists>s s' s''.
      exec [Driver] initial = Some s \<and> phase s = INIT
    \<and> exec [Emit (ascii ''protocol-version 1'' @ [0x0A] @ ascii ''id name Foo'' @ [0x0A]
                  @ ascii ''aeiok'' @ [0x0A]),
             Drain, Drain, Drain, Driver, Driver] s = Some s'
    \<and> engine_lines (console s') = [str ''protocol-version 1'', str ''id name Foo'']
    \<and> phase s' = INIT
    \<and> exec [Driver] s' = Some s''
    \<and> engine_lines (console s'') = [str ''protocol-version 1'', str ''id name Foo'', str ''aeiok'']
    \<and> phase s'' = READY_CHECK
    \<and> (\<exists>s3. exec [Emit (ascii ''readyok'' @ [0x0D, 0x0A]), Drain, Driver] s'' = Some s3
            \<and> phase s3 \<noteq> READY_CHECK)"
proof -
  let ?B = "[Emit (ascii ''protocol-version 1'' @ [0x0A] @ ascii ''id name Foo'' @ [0x0A]
                  @ ascii ''aeiok'' @ [0x0A]),
             Drain, Drain, Drain, Driver, Driver]"
  let ?C = "[Emit (ascii ''readyok'' @ [0x0D, 0x0A]), Drain, Driver]"
  have "\<exists>s s' s'' s3.
      exec [Driver] initial = Some s \<and> phase s = INIT \<and> engine_lines (console s) = []
    \<and> exec ?B s = Some s'
    \<and> engine_lines (console s') = [str ''protocol-version 1'', str ''id name Foo'']
    \<and> exec [Driver] s' = Some s''
    \<and> engine_lines (console s'') = [str ''protocol-version 1'', str ''id name Foo'', str ''aeiok'']
    \<and> phase s'' = READY_CHECK
    \<and> exec ?C s'' = Some s3
    \<and> engine_lines (console s3)
        = [str ''protocol-version 1'', str ''id name Foo'', str ''aeiok'', str ''readyok'' @ [0x0D]]"
    by (simp add: run_defs)
  then obtain s s' s'' s3 where
        e0: "exec [Driver] initial = Some s" and p0: "phase s = INIT"
    and c0: "engine_lines (console s) = []"
    and e1: "exec ?B s = Some s'"
    and c1: "engine_lines (console s') = [str ''protocol-version 1'', str ''id name Foo'']"
    and e2: "exec [Driver] s' = Some s''"
    and c2: "engine_lines (console s'')
               = [str ''protocol-version 1'', str ''id name Foo'', str ''aeiok'']"
    and p2: "phase s'' = READY_CHECK"
    and e3: "exec ?C s'' = Some s3"
    and c3: "engine_lines (console s3)
        = [str ''protocol-version 1'', str ''id name Foo'', str ''aeiok'', str ''readyok'' @ [0x0D]]"
    by blast
  from handshake_waits_for_stripped_sentinel [OF e1] p0 c0 c1
  have "phase s' = INIT \<longleftrightarrow>
          \<not> (\<exists>x\<in>set [str ''protocol-version 1'', str ''id name Foo'']. strip x = str ''aeiok'')"
    by auto
  then have p1: "phase s' = INIT"
    by (simp add: strip_def is_space_def str_def)
  from handshake_waits_for_stripped_sentinel [OF e3] p2 c2 c3
  have "phase s3 = READY_CHECK \<longleftrightarrow>
          \<not> (\<exists>x\<in>set [str ''readyok'' @ [0x0D]]. strip x = str ''readyok'')"
    by auto
  then have p3: "phase s3 \<noteq> READY_CHECK"
    by (simp add: strip_def is_space_def str_def)
  from e0 p0 e1 c1 p1 e2 c2 p2 e3 p3 show ?thesis by blast
qed

text \<open>
  The claim as written fails: the line \<open>aeiok\<close> followed by two spaces is not equal to
  \<open>aeiok\<close>, and on popping it the driver leaves INIT.
\<close>

theorem padded_sentinel_counterexample:
  "\<exists>s. exec [Driver, Emit (ascii ''aeiok  '' @ [0x0A]), Drain, Driver] initial = Some s
       \<and> console s = [ENGINE (str ''aeiok  '')]
       \<and> str ''aeiok  '' \<noteq> str ''aeiok''
       \<and> phase s = READY_CHECK"
  by (simp add: run_defs)

text \<open>
  C1, as the code has it. The search loop has no deadline and raises nothing: a poll
  that finds the queue empty leaves the session exactly as it was, so any number \<open>n\<close>
  of such polls does; and under every schedule a driver that was in SEARCHING is still
  in SEARCHING exactly when none of the lines popped since begins with \<open>bestmove\<close>.
  Popping such a line is the only way out of the loop.
\<close>

theorem search_polls_until_bestmove:
  assumes "phase s = SEARCHING"
  shows "(q s = [] \<longrightarrow> exec (replicate n Driver) s = Some s)
       \<and> (exec acts s = Some s' \<longrightarrow>
            (\<exists>ls. engine_lines (console s') = engine_lines (console s) @ ls
                 \<and> (phase s' = SEARCHING
                      \<longleftrightarrow> \<not> (\<exists>x\<in>set ls. startswith x (str ''bestmove'')))))"
  using poll_empty [OF assms, of n] waiting_exec [of SEARCHING s acts s'] assms
  by auto

text \<open>
  A thousand polls of a silent engine change nothing; an informational line is passed
  over; the line that begins with \<open>bestmove\<close> ends the search.
\<close>

theorem search_polls_until_bestmove_witness:
  "\<exists>s s' s''. exec [Driver, Emit (ascii ''aeiok'' @ [0x0A] @ ascii ''readyok'' @ [0x0A]),
                 Drain, Drain, Driver, Driver, Driver] initial = Some s
     \<and> phase s = SEARCHING \<and> q s = []
     \<and> exec (replicate 1000 Driver) s = Some s
     \<and> exec [Emit (ascii ''info depth 4'' @ [0x0A] @ ascii ''bestmove Hh2n'' @ [0x0A]),
              Drain, Driver] s = Some s'
     \<and> engine_lines (console s') = engine_lines (console s) @ [str ''info depth 4'']
     \<and> phase s' = SEARCHING
     \<and> exec [Drain, Driver] s' = Some s''
     \<and> engine_lines (console s'') = engine_lines (console s') @ [str ''bestmove Hh2n'']
     \<and> phase s'' \<noteq> SEARCHING"
proof -
  let ?A = "[Driver, Emit (ascii ''aeiok'' @ [0x0A] @ ascii ''readyok'' @ [0x0A]),
                 Drain, Drain, Driver, Driver, Driver]"
  let ?B = "[Emit (ascii ''info depth 4'' @ [0x0A] @ ascii ''bestmove Hh2n'' @ [0x0A]),
              Drain, Driver]"
  have "\<exists>s s' s''. exec ?A initial = Some s \<and> phase s = SEARCHING \<and> q s = []
      \<and> exec ?B s = Some s'
      \<and> engine_lines (console s') = engine_lines (console s) @ [str ''info depth 4'']
      \<and> exec [Drain, Driver] s' = Some s''
      \<and> engine_lines (console s'') = engine_lines (console s') @ [str ''bestmove Hh2n'']"
    by (simp add: run_defs)
  then obtain s s' s'' where e: "exec ?A initial = Some s" and p: "phase s = SEARCHING"
    and qs: "q s = []" and e': "exec ?B s = Some s'"
    and c: "engine_lines (console s') = engine_lines (console s) @ [str ''info depth 4'']"
    and e'': "exec [Drain, Driver] s' = Some s''"
    and c': "engine_lines (console s'') = engine_lines (console s') @ [str ''bestmove Hh2n'']"
    by blast
  from search_polls_until_bestmove [OF p, of 1000 ?B s'] qs e' c
  have polls: "exec (replicate 1000 Driver) s = Some s"
    and "phase s' = SEARCHING
           \<longleftrightarrow> \<not> (\<exists>x\<in>set [str ''info depth 4'']. startswith x (str ''bestmove''))"
    by auto
  then have p': "phase s' = SEARCHING"
    by (simp add: startswith_def str_def)
  from search_polls_until_bestmove [OF p', of 0 "[Drain, Driver]" s''] e'' c'
  have "phase s'' = SEARCHING
           \<longleftrightarrow> \<not> (\<exists>x\<in>set [str ''bestmove Hh2n'']. startswith x (str ''bestmove''))"
    by auto
  then have p'': "phase s'' \<noteq> SEARCHING"
    by (simp add: startswith_def str_def)
  from e p qs polls e' c p' e'' c' p'' show ?thesis by blast
qed

text \<open>
  The claim as written fails: with an engine that stays silent after the handshake,
  the driver is still polling in SEARCHING after \<open>n\<close> poll cycles, for every \<open>n\<close>,
  and has raised nothing.
\<close>

theorem search_never_times_out_counterexample:
  "\<forall>n. \<exists>s. exec ([Driver, Emit (ascii ''aeiok'' @ [0x0A] @ ascii ''readyok'' @ [0x0A]),
                    Drain, Drain, Driver, Driver, Driver] @ replicate n Driver) initial = Some s
          \<and> phase s = SEARCHING \<and> q s = [] \<and> bestmove s = None"
proof
  fix n
  let ?A = "[Driver, Emit (ascii ''aeiok'' @ [0x0A] @ ascii ''readyok'' @ [0x0A]),
                 Drain, Drain, Driver, Driver, Driver]"
  have "\<exists>s. exec ?A initial = Some s \<and> phase s = SEARCHING \<and> q s = [] \<and> bestmove s = None"
    by (simp add: run_defs)
  then obtain s where e: "exec ?A initial = Some s" and p: "phase s = SEARCHING"
    and qs: "q s = []" and b: "bestmove s = None" by blast
  from e poll_empty [OF p qs, of n] have "exec (?A @ replicate n Driver) initial = Some s"
    by (simp only: exec_append option.case)
  with p qs b
  show "\<exists>s. exec (?A @ replicate n Driver) initial = Some s
          \<and> phase s = SEARCHING \<and> q s = [] \<and> bestmove s = None"
    by blast
qed

text \<open>
  C4, as the code has it. When the driver in SEARCHING pops a line that begins with
  \<open>bestmove\<close>, the result it stores and prints is that complete line, marker
  included: for the engine line \<open>bestmove Hh2n\<close> the result is \<open>bestmove Hh2n\<close>.
\<close>

theorem bestmove_is_the_complete_line:
  assumes "phase s = SEARCHING" and "q s = line # rest"
      and "startswith line (str ''bestmove'')"
  shows "\<exists>s'. driver_step s = Some s' \<and> bestmove s' = Some line
            \<and> console s' = console s @ [ENGINE line, FINAL line]
            \<and> q s' = rest \<and> phase s' \<noteq> SEARCHING"
  using assms by (rule found_bestmove)

text \<open>The spec's second scenario, up to the pop of the best move.\<close>

theorem bestmove_is_the_complete_line_witness:
  "\<exists>s s'. exec [Driver,
                 Emit (ascii ''aeiok'' @ [0x0A] @ ascii ''readyok'' @ [0x0A]
                       @ ascii ''bestmove Hh2n'' @ [0x0A]),
                 Drain, Drain, Drain, Driver, Driver, Driver] initial = Some s
     \<and> phase s = SEARCHING \<and> q s = [str ''bestmove Hh2n'']
     \<and> startswith (str ''bestmove Hh2n'') (str ''bestmove'')
     \<and> driver_step s = Some s' \<and> bestmove s' = Some (str ''bestmove Hh2n'')"
proof -
  let ?acts = "[Driver,
                 Emit (ascii ''aeiok'' @ [0x0A] @ ascii ''readyok'' @ [0x0A]
                       @ ascii ''bestmove Hh2n'' @ [0x0A]),
                 Drain, Drain, Drain, Driver, Driver, Driver]"
  have "\<exists>s. exec ?acts initial = Some s \<and> phase s = SEARCHING \<and> q s = [str ''bestmove Hh2n'']"
    by (simp add: run_defs)
  then obtain s where e: "exec ?acts initial = Some s" and p: "phase s = SEARCHING"
    and qs: "q s = [str ''bestmove Hh2n'']" by blast
  have sw: "startswith (str ''bestmove Hh2n'') (str ''bestmove'')"
    by (simp add: startswith_def str_def)
  from bestmove_is_the_complete_line [OF p qs sw] obtain s'
    where "driver_step s = Some s'" and "bestmove s' = Some (str ''bestmove Hh2n'')" by blast
  with e p qs sw show ?thesis by blast
qed

text \<open>
  The claim as written fails: at the end of the full session the stored result is
  \<open>bestmove Hh2n\<close>, not \<open>Hh2n\<close>.
\<close>

theorem bestmove_text_counterexample:
  "\<exists>s. exec [Driver,
              Emit (ascii ''aeiok'' @ [0x0A] @ ascii ''readyok'' @ [0x0A]
                    @ ascii ''bestmove Hh2n'' @ [0x0A]),
              Drain, Drain, Drain, Driver, Driver, Driver, Driver, Exit, Driver] initial = Some s
       \<and> phase s = EXITED
       \<and> bestmove s = Some (str ''bestmove Hh2n'')
       \<and> bestmove s \<noteq> Some (str ''Hh2n'')"
  by (simp add: run_defs)

text \<open>
  C5, as the code has it. A \<^verbatim>\<open>q.get()\<close> without a timeout (the handshake waits of
  INIT and READY_CHECK) returns exactly when a line is available; the queue has no
  closed state. Once the drain thread has ended, normally or by an exception, and the
  queue is empty, the driver stays blocked in that call under every continuation.
\<close>

theorem blocking_get_waits_for_a_line:
  assumes "phase s = INIT \<or> phase s = READY_CHECK"
  shows "(driver_step s = None \<longleftrightarrow> q s = [])
       \<and> (q s = [] \<and> drain s \<noteq> Draining \<and> exec acts s = Some s' \<longrightarrow>
            q s' = [] \<and> drain s' = drain s \<and> phase s' = phase s \<and> driver_step s' = None)"
proof -
  have "q s' = [] \<and> drain s' = drain s \<and> phase s' = phase s \<and> driver_step s' = None"
    if "q s = []" "drain s \<noteq> Draining" "exec acts s = Some s'"
  proof -
    from stuck_exec [OF assms that]
    have *: "q s' = []" "drain s' = drain s" "phase s' = phase s" by simp_all
    with assms blocked_iff_empty [of s'] show ?thesis by simp
  qed
  with blocked_iff_empty [OF assms] show ?thesis by blast
qed

text \<open>
  The drain has died on a line that is not UTF-8; whatever the engine does afterwards,
  the driver is blocked in INIT.
\<close>

theorem blocking_get_waits_for_a_line_witness:
  "\<exists>s s'. exec [Driver, Emit [0xFF, 0x0A], Drain] initial = Some s
     \<and> phase s = INIT \<and> q s = [] \<and> drain s = Crashed UnicodeDecodeError
     \<and> driver_step s = None
     \<and> exec [Emit (ascii ''aeiok'' @ [0x0A]), Exit] s = Some s'
     \<and> q s' = [] \<and> phase s' = INIT \<and> driver_step s' = None"
proof -
  have "\<exists>s s'. exec [Driver, Emit [0xFF, 0x0A], Drain] initial = Some s
     \<and> phase s = INIT \<and> q s = [] \<and> drain s = Crashed UnicodeDecodeError
     \<and> exec [Emit (ascii ''aeiok'' @ [0x0A]), Exit] s = Some s'"
    by (simp add: run_defs)
  then obtain s s' where e: "exec [Driver, Emit [0xFF, 0x0A], Drain] initial = Some s"
    and p: "phase s = INIT" and qs: "q s = []" and d: "drain s = Crashed UnicodeDecodeError"
    and e': "exec [Emit (ascii ''aeiok'' @ [0x0A]), Exit] s = Some s'" by blast
  from p have "phase s = INIT \<or> phase s = READY_CHECK" by simp
  from blocking_get_waits_for_a_line [OF this, of "[Emit (ascii ''aeiok'' @ [0x0A]), Exit]" s']
    p qs d e'
  have "driver_step s = None" and "q s' = []" and "phase s' = INIT" and "driver_step s' = None"
    by simp_all
  with e p qs d e' show ?thesis by blast
qed

text \<open>
  The claim as written fails: the engine exits during the handshake, the drain reads
  the end of the stream and terminates, the queue is empty, and no continuation of the
  schedule ever takes the driver out of its blocking pop in INIT.
\<close>

theorem blocked_after_drain_end_counterexample:
  "(\<exists>s. exec [Driver, Exit, Drain] initial = Some s
        \<and> drain s = Finished \<and> q s = [] \<and> phase s = INIT \<and> driver_step s = None)
   \<and> \<not> (\<exists>acts s'. exec ([Driver, Exit, Drain] @ acts) initial = Some s' \<and> phase s' \<noteq> INIT)"
proof -
  have "\<exists>s. exec [Driver, Exit, Drain] initial = Some s
        \<and> drain s = Finished \<and> q s = [] \<and> phase s = INIT \<and> driver_step s = None"
    by (simp add: run_defs)
  then obtain s where e: "exec [Driver, Exit, Drain] initial = Some s"
    and d: "drain s = Finished" and qs: "q s = []" and p: "phase s = INIT"
    and b: "driver_step s = None" by blast
  have "phase s' = INIT" if "exec ([Driver, Exit, Drain] @ acts) initial = Some s'" for acts s'
  proof -
    from that e have "exec acts s = Some s'"
      by (simp only: exec_append option.case)
    from stuck_exec [OF _ qs _ this] p d show ?thesis by simp
  qed
  with e d qs p b show ?thesis by blast
qed

text \<open>
  C10. Every item the drain produces is the decoded text of a raw line with its
  trailing newline characters removed and nothing else: what precedes them stays. In
  particular, of a raw line that ends with carriage return and newline the item keeps
  the carriage return as its last character, and when that item begins with
  \<open>bestmove\<close> and the driver pops it in SEARCHING, the stored result is the item with
  the carriage return, verbatim.
\<close>

theorem crlf_lines_keep_carriage_return:
  "(next_line stream = (Got x, rest) \<longrightarrow>
      (\<exists>raw t k. stream = raw @ rest \<and> utf8_decode raw = Inr t
                \<and> t = x @ replicate k 0x0A \<and> (x = [] \<or> last x \<noteq> 0x0A)))
   \<and> (0x0A \<notin> set body \<and> utf8_decode (body @ [0x0D, 0x0A]) = Inr t' \<longrightarrow>
        (\<exists>y. next_line (body @ [0x0D, 0x0A] @ rest') = (Got y, rest')
            \<and> t' = y @ [0x0A] \<and> y \<noteq> [] \<and> last y = 0x0D
            \<and> (phase s = SEARCHING \<and> drain s = Draining \<and> q s = []
                 \<and> stdout_pipe (engine s) = body @ [0x0D, 0x0A] @ rest'
                 \<and> startswith y (str ''bestmove'')
               \<longrightarrow> (\<exists>s'. exec [Drain, Driver] s = Some s' \<and> bestmove s' = Some y))))"
proof (intro conjI impI)
  assume "next_line stream = (Got x, rest)"
  then show "\<exists>raw t k. stream = raw @ rest \<and> utf8_decode raw = Inr t
                \<and> t = x @ replicate k 0x0A \<and> (x = [] \<or> last x \<noteq> 0x0A)"
    by (rule next_line_item)
next
  assume "0x0A \<notin> set body \<and> utf8_decode (body @ [0x0D, 0x0A]) = Inr t'"
  then have "0x0A \<notin> set body" and "utf8_decode (body @ [0x0D, 0x0A]) = Inr t'" by simp_all
  from next_line_crlf [OF this, of rest'] obtain y
    where nl: "next_line (body @ [0x0D, 0x0A] @ rest') = (Got y, rest')"
      and y: "t' = y @ [0x0A]" "y \<noteq> []" "last y = 0x0D" by blast
  have "\<exists>s'. exec [Drain, Driver] s = Some s' \<and> bestmove s' = Some y"
    if "phase s = SEARCHING" "drain s = Draining" "q s = []"
       "stdout_pipe (engine s) = body @ [0x0D, 0x0A] @ rest'" "startswith y (str ''bestmove'')"
  proof -
    let ?s1 = "s\<lparr>engine := (engine s)\<lparr>stdout_pipe := rest'\<rparr>,
                  q := put y (q s), produced := produced s @ [y]\<rparr>"
    from that nl have "drain_step s = Some ?s1"
      by (intro drain_step_line) simp_all
    moreover from that have "phase ?s1 = SEARCHING" and "q ?s1 = y # []"
      by (simp_all add: put_def)
    from found_bestmove [OF this that(5)] obtain s'
      where "driver_step ?s1 = Some s'" and "bestmove s' = Some y" by blast
    ultimately show ?thesis by simp
  qed
  with nl y
  show "\<exists>y. next_line (body @ [0x0D, 0x0A] @ rest') = (Got y, rest')
            \<and> t' = y @ [0x0A] \<and> y \<noteq> [] \<and> last y = 0x0D
            \<and> (phase s = SEARCHING \<and> drain s = Draining \<and> q s = []
                 \<and> stdout_pipe (engine s) = body @ [0x0D, 0x0A] @ rest'
                 \<and> startswith y (str ''bestmove'')
               \<longrightarrow> (\<exists>s'. exec [Drain, Driver] s = Some s' \<and> bestmove s' = Some y))"
    by blast
qed

text \<open>A session with an engine that ends its lines with carriage return and newline.\<close>

theorem crlf_lines_keep_carriage_return_witness:
  "next_line (ascii ''id'' @ [0x0D, 0x0A] @ ascii ''aeiok'' @ [0x0D, 0x0A])
     = (Got (str ''id'' @ [0x0D]), ascii ''aeiok'' @ [0x0D, 0x0A])
   \<and> utf8_decode (ascii ''id'' @ [0x0D, 0x0A]) = Inr (str ''id'' @ [0x0D] @ replicate 1 0x0A)
   \<and> 0x0A \<notin> set (ascii ''bestmove Hh2n'')
   \<and> utf8_decode (ascii ''bestmove Hh2n'' @ [0x0D, 0x0A])
       = Inr (str ''bestmove Hh2n'' @ [0x0D, 0x0A])
   \<and> startswith (str ''bestmove Hh2n'' @ [0x0D]) (str ''bestmove'')
   \<and> (\<exists>s s'. exec [Driver, Emit (ascii ''aeiok'' @ [0x0D, 0x0A] @ ascii ''readyok'' @ [0x0D, 0x0A]),
                    Drain, Drain, Driver, Driver, Driver,
                    Emit (ascii ''bestmove Hh2n'' @ [0x0D, 0x0A])] initial = Some s
          \<and> phase s = SEARCHING \<and> drain s = Draining \<and> q s = []
          \<and> stdout_pipe (engine s) = ascii ''bestmove Hh2n'' @ [0x0D, 0x0A] @ []
          \<and> exec [Drain, Driver] s = Some s'
          \<and> bestmove s' = Some (str ''bestmove Hh2n'' @ [0x0D]))"
proof -
  let ?A = "[Driver, Emit (ascii ''aeiok'' @ [0x0D, 0x0A] @ ascii ''readyok'' @ [0x0D, 0x0A]),
                    Drain, Drain, Driver, Driver, Driver,
                    Emit (ascii ''bestmove Hh2n'' @ [0x0D, 0x0A])]"
  have nl: "next_line (ascii ''id'' @ [0x0D, 0x0A] @ ascii ''aeiok'' @ [0x0D, 0x0A])
     = (Got (str ''id'' @ [0x0D]), ascii ''aeiok'' @ [0x0D, 0x0A])"
    by (simp add: next_line_def utf8_decode_def rstrip_nl_def ascii_def str_def)
  have d1: "utf8_decode (ascii ''id'' @ [0x0D, 0x0A]) = Inr (str ''id'' @ [0x0D] @ replicate 1 0x0A)"
    by (simp add: utf8_decode_def ascii_def str_def)
  have body: "0x0A \<notin> set (ascii ''bestmove Hh2n'')"
    by (simp add: ascii_def)
  have d2: "utf8_decode (ascii ''bestmove Hh2n'' @ [0x0D, 0x0A])
       = Inr (str ''bestmove Hh2n'' @ [0x0D, 0x0A])"
    by (simp add: utf8_decode_def ascii_def str_def)
  have sw: "startswith (str ''bestmove Hh2n'' @ [0x0D]) (str ''bestmove'')"
    by (simp add: startswith_def str_def)
  have "\<exists>s. exec ?A initial = Some s
          \<and> phase s = SEARCHING \<and> drain s = Draining \<and> q s = []
          \<and> stdout_pipe (engine s) = ascii ''bestmove Hh2n'' @ [0x0D, 0x0A] @ []"
    by (simp add: run_defs)
  then obtain s where e: "exec ?A initial = Some s"
    and st: "phase s = SEARCHING" "drain s = Draining" "q s = []"
            "stdout_pipe (engine s) = ascii ''bestmove Hh2n'' @ [0x0D, 0x0A] @ []"
    by blast
  from crlf_lines_keep_carriage_return
         [where body = "ascii ''bestmove Hh2n''" and t' = "str ''bestmove Hh2n'' @ [0x0D, 0x0A]"
            and rest' = "[]" and s = s
            and stream = "ascii ''id'' @ [0x0D, 0x0A] @ ascii ''aeiok'' @ [0x0D, 0x0A]"
            and x = "str ''id'' @ [0x0D]" and rest = "ascii ''aeiok'' @ [0x0D, 0x0A]"]
       body d2 st
  obtain y where "str ''bestmove Hh2n'' @ [0x0D, 0x0A] = y @ [0x0A]"
    and run: "startswith y (str ''bestmove'')
               \<longrightarrow> (\<exists>s'. exec [Drain, Driver] s = Some s' \<and> bestmove s' = Some y)"
    by auto
  then have "y = str ''bestmove Hh2n'' @ [0x0D]" by simp
  with run sw obtain s' where "exec [Drain, Driver] s = Some s'"
    and "bestmove s' = Some (str ''bestmove Hh2n'' @ [0x0D])" by blast
  with nl d1 body d2 sw e st show ?thesis by blast
qed

end
